theory Spec2Isabelle
  imports Main "HOL-Library.Sublist" "HOL-Library.Char_ord" "HOL-Library.List_Lexorder"
  "HOL-Library.Product_Lexorder"
begin

section \<open>Values of the JavaScript runtime\<close>

text \<open>
  The server (\<^verbatim>\<open>src/lib/server.js\<close>) and the memory store (\<^verbatim>\<open>memory.js\<close>) exchange
  action parameters as JSON-like objects, and the store keeps them as text
  (\<^verbatim>\<open>JSON.stringify\<close> on the way in, \<^verbatim>\<open>JSON.parse\<close> on the way out). Strings are
  lists of code units; the model uses \<^typ>\<open>char\<close> for a code unit, so it covers the code
  units below 256, and the parser rejects an escape \<^verbatim>\<open>\uXXXX\<close> above \<^verbatim>\<open>00ff\<close>. Numbers are
  the integer-valued ones, of any size: fractions and exponents are outside the model
  (the parser rejects them), and so are the rounding of a JavaScript number beyond
  \<^verbatim>\<open>2^53\<close> and the exponent notation that \<^verbatim>\<open>JSON.stringify\<close> writes from \<^verbatim>\<open>1e21\<close> on. An
  object is the list of its members as written; where a key is written twice, reading
  a property takes the last one, as the runtime does, and the list keeps both.
\<close>

datatype json =
    JNull
  | JBool bool
  | JNum int
  | JStr string
  | JArr "json list"
  | JObj "(string \<times> json) list"

datatype error =
    SyntaxError string
  | TypeError string
  | SqliteError string
  | Error string

abbreviation (input) DQ :: char where "DQ \<equiv> CHR 0x22"
abbreviation (input) BSL :: char where "BSL \<equiv> CHR 0x5C"

subsection \<open>\<^verbatim>\<open>JSON.stringify\<close>\<close>

definition digit_char :: "nat \<Rightarrow> char" where
  "digit_char d = char_of (48 + d)"

function nat_digits :: "nat \<Rightarrow> string" where
  "nat_digits n = (if n < 10 then [digit_char n] else nat_digits (n div 10) @ [digit_char (n mod 10)])"
  by pat_completeness auto
termination
  by (relation "measure (\<lambda>n. n)") auto

declare nat_digits.simps [simp del]

definition int_digits :: "int \<Rightarrow> string" where
  "int_digits i = (if i < 0 then CHR ''-'' # nat_digits (nat (- i)) else nat_digits (nat i))"

definition hex_digit :: "nat \<Rightarrow> char" where
  "hex_digit d = (if d < 10 then char_of (48 + d) else char_of (87 + d))"

text \<open>QuoteJSONString: the two-character escapes, \<^verbatim>\<open>\u00xx\<close> for the other control
  characters, every other code unit as it is.\<close>

definition quote_char :: "char \<Rightarrow> string" where
  "quote_char c =
     (if c = DQ then [BSL, DQ]
      else if c = BSL then [BSL, BSL]
      else if c = CHR 0x08 then [BSL, CHR ''b'']
      else if c = CHR 0x0C then [BSL, CHR ''f'']
      else if c = CHR 0x0A then [BSL, CHR ''n'']
      else if c = CHR 0x0D then [BSL, CHR ''r'']
      else if c = CHR 0x09 then [BSL, CHR ''t'']
      else if (of_char c :: nat) < 32
        then [BSL, CHR ''u'', CHR ''0'', CHR ''0'', hex_digit (of_char c div 16), hex_digit (of_char c mod 16)]
      else [c])"

definition quote_string :: "string \<Rightarrow> string" where
  "quote_string s = DQ # concat (map quote_char s) @ [DQ]"

fun join_comma :: "string list \<Rightarrow> string" where
  "join_comma [] = []"
| "join_comma [x] = x"
| "join_comma (x # y # ys) = x @ CHR '','' # join_comma (y # ys)"

fun JSON_stringify :: "json \<Rightarrow> string" where
  "JSON_stringify JNull = ''null''"
| "JSON_stringify (JBool b) = (if b then ''true'' else ''false'')"
| "JSON_stringify (JNum i) = int_digits i"
| "JSON_stringify (JStr s) = quote_string s"
| "JSON_stringify (JArr vs) = CHR ''['' # join_comma (map JSON_stringify vs) @ '']''"
| "JSON_stringify (JObj ms) =
     CHR ''{'' # join_comma (map (\<lambda>(k, v). quote_string k @ CHR '':'' # JSON_stringify v) ms) @ ''}''"

subsection \<open>\<^verbatim>\<open>JSON.parse\<close>\<close>

definition is_ws :: "char \<Rightarrow> bool" where
  "is_ws c = (c = CHR '' '' \<or> c = CHR 0x09 \<or> c = CHR 0x0A \<or> c = CHR 0x0D)"

definition skip_ws :: "string \<Rightarrow> string" where
  "skip_ws s = dropWhile is_ws s"

definition is_digit :: "char \<Rightarrow> bool" where
  "is_digit c = (48 \<le> (of_char c :: nat) \<and> (of_char c :: nat) \<le> 57)"

definition digits_value :: "string \<Rightarrow> nat" where
  "digits_value ds = foldl (\<lambda>acc c. 10 * acc + (of_char c - 48)) 0 ds"

definition hex_value :: "char \<Rightarrow> nat option" where
  "hex_value c =
     (let n = (of_char c :: nat) in
      if 48 \<le> n \<and> n \<le> 57 then Some (n - 48)
      else if 97 \<le> n \<and> n \<le> 102 then Some (n - 87)
      else if 65 \<le> n \<and> n \<le> 70 then Some (n - 55)
      else None)"

definition unescape :: "char \<Rightarrow> char option" where
  "unescape e =
     (if e = DQ then Some DQ
      else if e = BSL then Some BSL
      else if e = CHR ''/'' then Some (CHR ''/'')
      else if e = CHR ''b'' then Some (CHR 0x08)
      else if e = CHR ''f'' then Some (CHR 0x0C)
      else if e = CHR ''n'' then Some (CHR 0x0A)
      else if e = CHR ''r'' then Some (CHR 0x0D)
      else if e = CHR ''t'' then Some (CHR 0x09)
      else None)"

text \<open>The escape \<^verbatim>\<open>\uXXXX\<close>, for the code units of the model.\<close>

definition hex4 :: "char \<Rightarrow> char \<Rightarrow> char \<Rightarrow> char \<Rightarrow> char option" where
  "hex4 a b c d =
     (case (hex_value a, hex_value b, hex_value c, hex_value d) of
        (Some w, Some x, Some y, Some z) \<Rightarrow>
          (if w = 0 \<and> x = 0 then Some (char_of (16 * y + z)) else None)
      | _ \<Rightarrow> None)"

definition cons_fst :: "'a \<Rightarrow> ('a list \<times> 'b) option \<Rightarrow> ('a list \<times> 'b) option" where
  "cons_fst x r = (case r of None \<Rightarrow> None | Some (xs, rest) \<Rightarrow> Some (x # xs, rest))"

text \<open>The characters of a string literal after its opening quote: the decoded string
  and the text after the closing quote.\<close>

fun parse_string_body :: "string \<Rightarrow> (string \<times> string) option" where
  "parse_string_body [] = None"
| "parse_string_body [c] = (if c = DQ then Some ([], []) else None)"
| "parse_string_body (c # e # cs) =
     (if c = DQ then Some ([], e # cs)
      else if c = BSL then
        (if e = CHR ''u'' then
           (case cs of
              h1 # h2 # h3 # h4 # cs' \<Rightarrow>
                (case hex4 h1 h2 h3 h4 of
                   None \<Rightarrow> None
                 | Some ch \<Rightarrow> cons_fst ch (parse_string_body cs'))
            | _ \<Rightarrow> None)
         else
           (case unescape e of
              None \<Rightarrow> None
            | Some ch \<Rightarrow> cons_fst ch (parse_string_body cs)))
      else if (of_char c :: nat) < 32 then None
      else cons_fst c (parse_string_body (e # cs)))"

definition parse_number :: "string \<Rightarrow> (json \<times> string) option" where
  "parse_number s =
     (let neg = (case s of [] \<Rightarrow> False | c # _ \<Rightarrow> c = CHR ''-'');
          s1 = (if neg then tl s else s);
          ds = takeWhile is_digit s1;
          rest = dropWhile is_digit s1
      in if ds = [] then None
         else if 1 < length ds \<and> hd ds = CHR ''0'' then None
         else if (case rest of [] \<Rightarrow> False | c # _ \<Rightarrow> c = CHR ''.'' \<or> c = CHR ''e'' \<or> c = CHR ''E'') then None
         else Some (JNum ((if neg then - 1 else 1) * int (digits_value ds)), rest))"

definition expect :: "char \<Rightarrow> string \<Rightarrow> string option" where
  "expect c s = (case s of [] \<Rightarrow> None | d # ds \<Rightarrow> if d = c then Some ds else None)"

definition literal :: "string \<Rightarrow> json \<Rightarrow> string \<Rightarrow> (json \<times> string) option" where
  "literal word v s = (if take (length word) s = word then Some (v, drop (length word) s) else None)"

text \<open>The recursive descent. The first argument bounds the number of nested calls;
  \<open>JSON_parse\<close> below supplies more than the length of the text, and every call
  but the outermost follows a consumed character.\<close>

fun parse_value :: "nat \<Rightarrow> string \<Rightarrow> (json \<times> string) option"
and parse_elements :: "nat \<Rightarrow> string \<Rightarrow> (json list \<times> string) option"
and parse_members :: "nat \<Rightarrow> string \<Rightarrow> ((string \<times> json) list \<times> string) option"
where
  "parse_value 0 s = None"
| "parse_value (Suc n) s =
     (case s of
        [] \<Rightarrow> None
      | c # cs \<Rightarrow>
          if c = CHR ''n'' then literal ''null'' JNull s
          else if c = CHR ''t'' then literal ''true'' (JBool True) s
          else if c = CHR ''f'' then literal ''false'' (JBool False) s
          else if c = DQ then
            (case parse_string_body cs of
               None \<Rightarrow> None
             | Some (str, rest) \<Rightarrow> Some (JStr str, rest))
          else if c = CHR ''['' then
            (case expect (CHR '']'') (skip_ws cs) of
               Some rest \<Rightarrow> Some (JArr [], rest)
             | None \<Rightarrow>
                 (case parse_elements n (skip_ws cs) of
                    None \<Rightarrow> None
                  | Some (vs, rest) \<Rightarrow> Some (JArr vs, rest)))
          else if c = CHR ''{'' then
            (case expect (CHR ''}'') (skip_ws cs) of
               Some rest \<Rightarrow> Some (JObj [], rest)
             | None \<Rightarrow>
                 (case parse_members n (skip_ws cs) of
                    None \<Rightarrow> None
                  | Some (ms, rest) \<Rightarrow> Some (JObj ms, rest)))
          else parse_number s)"
| "parse_elements 0 s = None"
| "parse_elements (Suc n) s =
     (case parse_value n s of
        None \<Rightarrow> None
      | Some (v, rest) \<Rightarrow>
          (case expect (CHR '','') (skip_ws rest) of
             Some rest' \<Rightarrow> cons_fst v (parse_elements n (skip_ws rest'))
           | None \<Rightarrow>
               (case expect (CHR '']'') (skip_ws rest) of
                  Some rest' \<Rightarrow> Some ([v], rest')
                | None \<Rightarrow> None)))"
| "parse_members 0 s = None"
| "parse_members (Suc n) s =
     (case expect DQ s of
        None \<Rightarrow> None
      | Some cs \<Rightarrow>
          (case parse_string_body cs of
             None \<Rightarrow> None
           | Some (k, rest) \<Rightarrow>
               (case expect (CHR '':'') (skip_ws rest) of
                  None \<Rightarrow> None
                | Some rest1 \<Rightarrow>
                    (case parse_value n (skip_ws rest1) of
                       None \<Rightarrow> None
                     | Some (v, rest2) \<Rightarrow>
                         (case expect (CHR '','') (skip_ws rest2) of
                            Some rest3 \<Rightarrow> cons_fst (k, v) (parse_members n (skip_ws rest3))
                          | None \<Rightarrow>
                              (case expect (CHR ''}'') (skip_ws rest2) of
                                 Some rest3 \<Rightarrow> Some ([(k, v)], rest3)
                               | None \<Rightarrow> None))))))"

text \<open>\<^verbatim>\<open>JSON.parse(text)\<close>: the value, or \<open>None\<close> where the runtime throws a
  \<^verbatim>\<open>SyntaxError\<close>.\<close>

definition JSON_parse :: "string \<Rightarrow> json option" where
  "JSON_parse s =
     (case parse_value (Suc (length s)) (skip_ws s) of
        None \<Rightarrow> None
      | Some (v, rest) \<Rightarrow> if skip_ws rest = [] then Some v else None)"

subsection \<open>Shapes of serialized text\<close>

text \<open>What may follow a value in the text: the end, or a character that is neither
  part of a number nor a digit.\<close>

definition delimited :: "string \<Rightarrow> bool" where
  "delimited rest = (case rest of [] \<Rightarrow> True | c # _ \<Rightarrow> c = CHR '','' \<or> c = CHR '']'' \<or> c = CHR ''}'')"

text \<open>The first character of a serialized value.\<close>

definition starts_value :: "string \<Rightarrow> bool" where
  "starts_value s =
     (case s of [] \<Rightarrow> False
      | c # _ \<Rightarrow> \<not> is_ws c \<and> c \<noteq> CHR '']'' \<and> c \<noteq> CHR ''}'' \<and> c \<noteq> CHR '','' \<and> c \<noteq> CHR '':'')"

definition member_text :: "string \<times> json \<Rightarrow> string" where
  "member_text = (\<lambda>(k, v). quote_string k @ CHR '':'' # JSON_stringify v)"

section \<open>The memory store\<close>

text \<open>
  \<^verbatim>\<open>MemoryStore\<close> keeps four SQLite tables (\<^verbatim>\<open>initializeSchema\<close>). A table is the list
  of its rows in insertion order; an \<^verbatim>\<open>AUTOINCREMENT\<close> key is one more than the largest
  key the table ever used, which the database remembers per table. \<^verbatim>\<open>CURRENT_TIMESTAMP\<close>
  is the time of the statement, an argument \<open>now\<close> of every operation that writes one.
\<close>

record sequence_row =
  seq_id :: nat
  seq_name :: string
  seq_description :: string
  seq_trigger_pattern :: string
  seq_created_at :: nat
  seq_updated_at :: nat

record action_row =
  act_id :: nat
  act_sequence_id :: nat
  act_step_order :: nat
  act_tool_name :: string
  act_parameters :: string
  act_created_at :: nat

record mapping_row =
  map_id :: nat
  site_pattern :: string
  element_name :: string
  locator_by :: string
  locator_value :: string
  map_description :: string
  map_created_at :: nat
  map_updated_at :: nat

record history_row =
  hist_id :: nat
  hist_sequence_name :: "string option"
  hist_tool_name :: string
  hist_parameters :: string
  hist_success :: nat
  hist_error_message :: "string option"
  hist_executed_at :: nat

record database =
  action_sequences :: "sequence_row list"
  sequence_actions :: "action_row list"
  element_mappings :: "mapping_row list"
  execution_history :: "history_row list"
  seq_autoinc :: nat
  act_autoinc :: nat
  map_autoinc :: nat
  hist_autoinc :: nat

text \<open>The database after \<^verbatim>\<open>initializeSchema\<close> on a new file.\<close>

definition empty_db :: database where
  "empty_db =
     \<lparr>action_sequences = [], sequence_actions = [], element_mappings = [],
      execution_history = [], seq_autoinc = 0, act_autoinc = 0, map_autoinc = 0,
      hist_autoinc = 0\<rparr>"

record action =
  toolName :: string
  parameters :: json

record stored_action = action +
  stepOrder :: nat

record sequence =
  seq_row :: sequence_row
  actions :: "stored_action list"

subsection \<open>\<^verbatim>\<open>saveSequence\<close>\<close>

text \<open>\<^verbatim>\<open>SELECT id FROM action_sequences WHERE name = ?\<close>, the subquery of
  \<^verbatim>\<open>deleteActions\<close> and \<^verbatim>\<open>insertAction\<close>.\<close>

definition select_id :: "string \<Rightarrow> database \<Rightarrow> nat option" where
  "select_id name db =
     map_option seq_id (find (\<lambda>r. seq_name r = name) (action_sequences db))"

text \<open>\<^verbatim>\<open>insertSequence\<close>: \<^verbatim>\<open>INSERT ... ON CONFLICT(name) DO UPDATE SET description,
  trigger_pattern, updated_at\<close>. The insert leaves \<^verbatim>\<open>created_at\<close> to its default. SQLite
  draws the new key before it meets the conflict, so the counter of the table advances
  on the update as well.\<close>

definition insertSequence_run :: "nat \<Rightarrow> string \<Rightarrow> string \<Rightarrow> string \<Rightarrow> database \<Rightarrow> database" where
  "insertSequence_run now name description triggerPattern db =
     (if list_ex (\<lambda>r. seq_name r = name) (action_sequences db)
      then db\<lparr>action_sequences :=
                map (\<lambda>r. if seq_name r = name
                          then r\<lparr>seq_description := description,
                                 seq_trigger_pattern := triggerPattern,
                                 seq_updated_at := now\<rparr>
                          else r)
                    (action_sequences db),
              seq_autoinc := Suc (seq_autoinc db)\<rparr>
      else db\<lparr>action_sequences :=
                action_sequences db @
                  [\<lparr>seq_id = Suc (seq_autoinc db), seq_name = name,
                    seq_description = description, seq_trigger_pattern = triggerPattern,
                    seq_created_at = now, seq_updated_at = now\<rparr>],
              seq_autoinc := Suc (seq_autoinc db)\<rparr>)"

text \<open>\<^verbatim>\<open>deleteActions\<close>: \<^verbatim>\<open>DELETE FROM sequence_actions WHERE sequence_id = (SELECT id ...)\<close>.
  A subquery with no row is NULL, which equals no \<^verbatim>\<open>sequence_id\<close>.\<close>

definition deleteActions_run :: "string \<Rightarrow> database \<Rightarrow> database" where
  "deleteActions_run name db =
     (case select_id name db of
        None \<Rightarrow> db
      | Some i \<Rightarrow>
          db\<lparr>sequence_actions := filter (\<lambda>a. act_sequence_id a \<noteq> i) (sequence_actions db)\<rparr>)"

text \<open>\<^verbatim>\<open>insertAction\<close>: a NULL \<^verbatim>\<open>sequence_id\<close> violates the column's \<^verbatim>\<open>NOT NULL\<close>.\<close>

definition insertAction_run ::
  "nat \<Rightarrow> string \<Rightarrow> nat \<Rightarrow> string \<Rightarrow> string \<Rightarrow> database \<Rightarrow> error + database" where
  "insertAction_run now name step tool params db =
     (case select_id name db of
        None \<Rightarrow> Inl (SqliteError ''NOT NULL constraint failed: sequence_actions.sequence_id'')
      | Some i \<Rightarrow>
          Inr (db\<lparr>sequence_actions :=
                    sequence_actions db @
                      [\<lparr>act_id = Suc (act_autoinc db), act_sequence_id = i,
                        act_step_order = step, act_tool_name = tool,
                        act_parameters = params, act_created_at = now\<rparr>],
                  act_autoinc := Suc (act_autoinc db)\<rparr>))"

text \<open>
  \<^verbatim>\<open>statement.run(...)\<close> may throw whatever the statement is: the database refuses it
  (the disk is full, an I/O error, a lock). Which statements it refuses is not the
  program's: \<open>refused k\<close> says it of the \<open>k\<close>-th statement that a transaction runs,
  counted from 0. A refused statement changes nothing.
\<close>

definition run_statement ::
  "(nat \<Rightarrow> bool) \<Rightarrow> nat \<Rightarrow> (database \<Rightarrow> error + database) \<Rightarrow> database \<Rightarrow> error + database" where
  "run_statement refused k statement db =
     (if refused k then Inl (SqliteError ''the database refused the statement'') else statement db)"

text \<open>\<^verbatim>\<open>actions.forEach((action, index) => insertAction.run(name, index + 1, ...))\<close>,
  from the given index on; the statement for an index is statement \<open>index + 2\<close> of the
  transaction.\<close>

fun insertActions ::
  "(nat \<Rightarrow> bool) \<Rightarrow> nat \<Rightarrow> string \<Rightarrow> nat \<Rightarrow> action list \<Rightarrow> database \<Rightarrow> error + database" where
  "insertActions refused now name index [] db = Inr db"
| "insertActions refused now name index (a # as) db =
     (case run_statement refused (index + 2)
             (insertAction_run now name (index + 1) (toolName a) (JSON_stringify (parameters a))) db of
        Inl e \<Rightarrow> Inl e
      | Inr db' \<Rightarrow> insertActions refused now name (index + 1) as db')"

fun load_actions :: "action_row list \<Rightarrow> error + stored_action list" where
  "load_actions [] = Inr []"
| "load_actions (a # as) =
     (case JSON_parse (act_parameters a) of
        None \<Rightarrow> Inl (SyntaxError ''JSON.parse'')
      | Some p \<Rightarrow>
          (case load_actions as of
             Inl e \<Rightarrow> Inl e
           | Inr rest \<Rightarrow>
               Inr (\<lparr>toolName = act_tool_name a, parameters = p, stepOrder = act_step_order a\<rparr> # rest)))"

text \<open>\<^verbatim>\<open>getSequence\<close>: the row of that name, or null; its actions are the rows of
  \<^verbatim>\<open>sequence_actions\<close> with its id, \<^verbatim>\<open>ORDER BY step_order\<close>.\<close>

definition getSequence :: "string \<Rightarrow> database \<Rightarrow> error + sequence option" where
  "getSequence name db =
     (case find (\<lambda>r. seq_name r = name) (action_sequences db) of
        None \<Rightarrow> Inr None
      | Some row \<Rightarrow>
          (case load_actions
                  (sort_key act_step_order
                     (filter (\<lambda>a. act_sequence_id a = seq_id row) (sequence_actions db))) of
             Inl e \<Rightarrow> Inl e
           | Inr acts \<Rightarrow> Inr (Some \<lparr>seq_row = row, actions = acts\<rparr>)))"

text \<open>The function that \<^verbatim>\<open>db.transaction\<close> wraps: the upsert, the delete, the inserts.
  The first statement that throws ends it.\<close>

definition save_statements ::
  "(nat \<Rightarrow> bool) \<Rightarrow> nat \<Rightarrow> string \<Rightarrow> string \<Rightarrow> string \<Rightarrow> action list \<Rightarrow> database
     \<Rightarrow> error + database" where
  "save_statements refused now name description triggerPattern acts db =
     (case run_statement refused 0
             (\<lambda>d. Inr (insertSequence_run now name description triggerPattern d)) db of
        Inl e \<Rightarrow> Inl e
      | Inr db1 \<Rightarrow>
          (case run_statement refused 1 (\<lambda>d. Inr (deleteActions_run name d)) db1 of
             Inl e \<Rightarrow> Inl e
           | Inr db2 \<Rightarrow> insertActions refused now name 0 acts db2))"

text \<open>\<^verbatim>\<open>saveSequence\<close> in an environment that refuses the statements \<open>refused\<close>. The
  statements run in one transaction: where one throws, the database is rolled back to
  what it was and the error propagates; otherwise the call commits and returns
  \<^verbatim>\<open>this.getSequence(name)\<close>. The result is the pair of what the call returns (or
  throws) and the database it leaves.\<close>

definition saveSequence_refusing ::
  "(nat \<Rightarrow> bool) \<Rightarrow> nat \<Rightarrow> string \<Rightarrow> string \<Rightarrow> string \<Rightarrow> action list \<Rightarrow> database
     \<Rightarrow> (error + sequence option) \<times> database" where
  "saveSequence_refusing refused now name description triggerPattern acts db =
     (case save_statements refused now name description triggerPattern acts db of
        Inl e \<Rightarrow> (Inl e, db)
      | Inr db' \<Rightarrow> (getSequence name db', db'))"

text \<open>\<^verbatim>\<open>saveSequence\<close> where the database refuses no statement.\<close>

definition saveSequence ::
  "nat \<Rightarrow> string \<Rightarrow> string \<Rightarrow> string \<Rightarrow> action list \<Rightarrow> database
     \<Rightarrow> (error + sequence option) \<times> database" where
  "saveSequence now name description triggerPattern acts db =
     saveSequence_refusing (\<lambda>k. False) now name description triggerPattern acts db"

subsection \<open>\<^verbatim>\<open>deleteSequence\<close>\<close>

text \<open>\<^verbatim>\<open>DELETE FROM action_sequences WHERE name = ?\<close>; \<^verbatim>\<open>result.changes\<close> counts the
  deleted rows of that table. The schema declares \<^verbatim>\<open>sequence_actions.sequence_id\<close> as
  \<^verbatim>\<open>REFERENCES action_sequences(id) ON DELETE CASCADE\<close>, so the rows of a deleted
  sequence go with it (the SQLite build of better-sqlite3 enforces foreign keys).\<close>

definition deleteSequence :: "string \<Rightarrow> database \<Rightarrow> bool \<times> database" where
  "deleteSequence name db =
     (let deleted = filter (\<lambda>r. seq_name r = name) (action_sequences db);
          ids = map seq_id deleted
      in (0 < length deleted,
          db\<lparr>action_sequences := filter (\<lambda>r. seq_name r \<noteq> name) (action_sequences db),
             sequence_actions := filter (\<lambda>a. act_sequence_id a \<notin> set ids) (sequence_actions db)\<rparr>))"

subsection \<open>\<^verbatim>\<open>logExecution\<close>\<close>

definition logExecution ::
  "nat \<Rightarrow> string option \<Rightarrow> string \<Rightarrow> json \<Rightarrow> bool \<Rightarrow> string option \<Rightarrow> database \<Rightarrow> database" where
  "logExecution now sequenceName tool params success errorMessage db =
     db\<lparr>execution_history :=
          execution_history db @
            [\<lparr>hist_id = Suc (hist_autoinc db), hist_sequence_name = sequenceName,
              hist_tool_name = tool, hist_parameters = JSON_stringify params,
              hist_success = (if success then 1 else 0), hist_error_message = errorMessage,
              hist_executed_at = now\<rparr>],
        hist_autoinc := Suc (hist_autoinc db)\<rparr>"

subsection \<open>What a save leaves behind\<close>

text \<open>The rows that \<open>insertActions\<close> appends for a sequence id, and the actions that
  \<open>getSequence\<close> reads back from them: the given actions in order, numbered from
  \<open>index + 1\<close>.\<close>

fun new_rows :: "nat \<Rightarrow> nat \<Rightarrow> nat \<Rightarrow> nat \<Rightarrow> action list \<Rightarrow> action_row list" where
  "new_rows now i auto index [] = []"
| "new_rows now i auto index (a # as) =
     \<lparr>act_id = Suc auto, act_sequence_id = i, act_step_order = index + 1,
      act_tool_name = toolName a, act_parameters = JSON_stringify (parameters a),
      act_created_at = now\<rparr> # new_rows now i (Suc auto) (index + 1) as"

fun stored_from :: "nat \<Rightarrow> action list \<Rightarrow> stored_action list" where
  "stored_from index [] = []"
| "stored_from index (a # as) =
     \<lparr>toolName = toolName a, parameters = parameters a, stepOrder = index + 1\<rparr>
       # stored_from (index + 1) as"

text \<open>The row of a name, as \<^verbatim>\<open>SELECT * FROM action_sequences WHERE name = ?\<close> gets it.\<close>

definition sequence_named :: "string \<Rightarrow> database \<Rightarrow> sequence_row option" where
  "sequence_named name db = find (\<lambda>r. seq_name r = name) (action_sequences db)"

text \<open>Referential integrity: every action row belongs to a sequence row.\<close>

definition no_orphans :: "database \<Rightarrow> bool" where
  "no_orphans db =
     list_all (\<lambda>a. list_ex (\<lambda>r. seq_id r = act_sequence_id a) (action_sequences db))
       (sequence_actions db)"

text \<open>The environment that refuses one statement of a transaction, the \<open>j\<close>-th.\<close>

definition refusing_only :: "nat \<Rightarrow> nat \<Rightarrow> bool" where
  "refusing_only j k = (k = j)"

section \<open>Strings and regular expressions of the runtime\<close>

text \<open>\<^verbatim>\<open>subject.includes(search)\<close>: the search string occurs at some position.\<close>

fun String_includes :: "string \<Rightarrow> string \<Rightarrow> bool" where
  "String_includes [] search = (search = [])"
| "String_includes (c # cs) search = (prefix search (c # cs) \<or> String_includes cs search)"

text \<open>
  \<^verbatim>\<open>new RegExp(source)\<close> is the engine of the runtime, not code of this repository. The
  model computes the part of it that the placeholders and plain site patterns need, and
  takes the rest as a parameter. The computed part is the sources that are alternatives
  (\<^verbatim>\<open>|\<close>) of literal text: characters without a meaning of their own, and a backslash
  before a syntax character or a slash. A brace is literal text unless a digit follows
  an opening brace (where it may start a quantifier). For every other source the
  parameter \<open>other\<close> answers: \<open>None\<close> where the constructor throws a \<^verbatim>\<open>SyntaxError\<close>.
\<close>

definition is_operator :: "char \<Rightarrow> bool" where
  "is_operator c = (c \<in> set ''^$.*+?()[]'')"

definition is_syntax_char :: "char \<Rightarrow> bool" where
  "is_syntax_char c = (is_operator c \<or> c = BSL \<or> c = CHR ''{'' \<or> c = CHR ''}'' \<or> c = CHR ''|'')"

fun parse_alternatives :: "string \<Rightarrow> string \<Rightarrow> string list option" where
  "parse_alternatives [] cur = Some [cur]"
| "parse_alternatives [c] cur =
     (if c = CHR ''|'' then Some [cur, []]
      else if c = BSL \<or> is_operator c then None
      else Some [cur @ [c]])"
| "parse_alternatives (c # d # cs) cur =
     (if c = CHR ''|'' then map_option (Cons cur) (parse_alternatives (d # cs) [])
      else if c = BSL then
        (if is_syntax_char d \<or> d = CHR ''/'' then parse_alternatives cs (cur @ [d]) else None)
      else if is_operator c then None
      else if c = CHR ''{'' \<and> is_digit d then None
      else parse_alternatives (d # cs) (cur @ [c]))"

text \<open>The first alternative that matches at the start of the text wins.\<close>

definition first_match :: "string list \<Rightarrow> string \<Rightarrow> string option" where
  "first_match alts s = find (\<lambda>a. prefix a s) alts"

text \<open>GetSubstitution for a match without capture groups: in the replacement text
  \<^verbatim>\<open>$$\<close> is a dollar, \<^verbatim>\<open>$&\<close> the match, \<^verbatim>\<open>$`\<close> the text before it and \<^verbatim>\<open>$'\<close> the text
  after it; every other character stands for itself.\<close>

fun expand :: "string \<Rightarrow> string \<Rightarrow> string \<Rightarrow> string \<Rightarrow> string" where
  "expand matched preceding following [] = []"
| "expand matched preceding following [c] = [c]"
| "expand matched preceding following (c # d # cs) =
     (if c = CHR ''$'' then
        (if d = CHR ''$'' then CHR ''$'' # expand matched preceding following cs
         else if d = CHR ''&'' then matched @ expand matched preceding following cs
         else if d = CHR 0x60 then preceding @ expand matched preceding following cs
         else if d = CHR 0x27 then following @ expand matched preceding following cs
         else c # expand matched preceding following (d # cs))
      else c # expand matched preceding following (d # cs))"

text \<open>\<^verbatim>\<open>subject.replace(regexp, replacement)\<close> with the flag \<^verbatim>\<open>g\<close>: left to right, every
  match is replaced by the expansion of the replacement; after an empty match the search
  goes on one character later. \<open>preceding\<close> is the text already passed, \<open>skip\<close> the number
  of characters of the current match still to pass.\<close>

fun replace_walk :: "string list \<Rightarrow> string \<Rightarrow> string \<Rightarrow> nat \<Rightarrow> string \<Rightarrow> string" where
  "replace_walk alts rep preceding skip [] =
     (if skip = 0 then
        (case first_match alts [] of None \<Rightarrow> [] | Some m \<Rightarrow> expand m preceding [] rep)
      else [])"
| "replace_walk alts rep preceding skip (c # cs) =
     (if 0 < skip then replace_walk alts rep (preceding @ [c]) (skip - 1) cs
      else
        (case first_match alts (c # cs) of
           None \<Rightarrow> c # replace_walk alts rep (preceding @ [c]) 0 cs
         | Some m \<Rightarrow>
             expand m preceding (drop (length m) (c # cs)) rep @
               (if m = [] then c # replace_walk alts rep (preceding @ [c]) 0 cs
                else replace_walk alts rep (preceding @ [c]) (length m - 1) cs)))"

text \<open>\<^verbatim>\<open>new RegExp(source)\<close> used for \<^verbatim>\<open>.test(subject)\<close>, and \<^verbatim>\<open>new RegExp(source, 'g')\<close>
  used as the pattern of \<^verbatim>\<open>subject.replace(pattern, replacement)\<close>. The test of a
  pattern of the parameter may itself throw.\<close>

type_synonym tester = "string \<Rightarrow> error + bool"

type_synonym replacer = "string \<Rightarrow> string \<Rightarrow> string"

definition RegExp_test :: "(string \<Rightarrow> tester option) \<Rightarrow> string \<Rightarrow> tester option" where
  "RegExp_test other source =
     (case parse_alternatives source [] of
        Some alts \<Rightarrow> Some (\<lambda>subject. Inr (list_ex (String_includes subject) alts))
      | None \<Rightarrow> other source)"

definition RegExp_replace :: "(string \<Rightarrow> replacer option) \<Rightarrow> string \<Rightarrow> replacer option" where
  "RegExp_replace other source =
     (case parse_alternatives source [] of
        Some alts \<Rightarrow> Some (\<lambda>replacement subject. replace_walk alts replacement [] 0 subject)
      | None \<Rightarrow> other source)"

text \<open>An engine parameter for the examples whose patterns are all literal text.\<close>

definition unsupported :: "string \<Rightarrow> 'a option" where
  "unsupported source = None"

text \<open>The engine on the one source \<^verbatim>\<open>(a+)+\<close>: it compiles, and the unanchored search
  finds a match exactly in the subjects that contain the letter a.\<close>

definition nested_plus :: "string \<Rightarrow> tester option" where
  "nested_plus source =
     (if source = ''(a+)+'' then Some (\<lambda>subject. Inr (CHR ''a'' \<in> set subject)) else None)"

section \<open>The site matcher\<close>

definition MAX_PATTERN_LENGTH :: nat where
  "MAX_PATTERN_LENGTH = 200"

text \<open>
  \<^verbatim>\<open>dangerousPattern = /(\+\+|\*\*|\{\d+,\d*\}\+|\{\d+,\d*\}\*|\(\?[^)]*\)\+|\(\?[^)]*\)\*)/\<close>
  and its \<^verbatim>\<open>.test\<close>: one of the six alternatives matches at some position. The digit
  runs and the run of \<^verbatim>\<open>[^)]\<close> are followed by a character outside their class, so the
  longest run is the only one that can match.
\<close>

definition plus_or_star :: "string \<Rightarrow> bool" where
  "plus_or_star s = (case s of [] \<Rightarrow> False | c # _ \<Rightarrow> c = CHR ''+'' \<or> c = CHR ''*'')"

text \<open>\<^verbatim>\<open>\{\d+,\d*\}\<close> followed by \<^verbatim>\<open>+\<close> or \<^verbatim>\<open>*\<close>.\<close>

definition quantified_braces :: "string \<Rightarrow> bool" where
  "quantified_braces s =
     (case s of
        [] \<Rightarrow> False
      | c # r \<Rightarrow>
          c = CHR ''{'' \<and> takeWhile is_digit r \<noteq> [] \<and>
          (case dropWhile is_digit r of
             [] \<Rightarrow> False
           | d # r2 \<Rightarrow>
               d = CHR '','' \<and>
               (case dropWhile is_digit r2 of
                  [] \<Rightarrow> False
                | e # r3 \<Rightarrow> e = CHR ''}'' \<and> plus_or_star r3)))"

text \<open>\<^verbatim>\<open>\(\?[^)]*\)\<close> followed by \<^verbatim>\<open>+\<close> or \<^verbatim>\<open>*\<close>.\<close>

definition quantified_group :: "string \<Rightarrow> bool" where
  "quantified_group s =
     (case s of
        c # d # r \<Rightarrow>
          c = CHR ''('' \<and> d = CHR ''?'' \<and>
          (case dropWhile (\<lambda>x. x \<noteq> CHR '')'') r of
             [] \<Rightarrow> False
           | _ # r2 \<Rightarrow> plus_or_star r2)
      | _ \<Rightarrow> False)"

definition dangerous_at :: "string \<Rightarrow> bool" where
  "dangerous_at s =
     (prefix ''++'' s \<or> prefix ''**'' s \<or> quantified_braces s \<or> quantified_group s)"

fun dangerousPattern_test :: "string \<Rightarrow> bool" where
  "dangerousPattern_test [] = dangerous_at []"
| "dangerousPattern_test (c # cs) = (dangerous_at (c # cs) \<or> dangerousPattern_test cs)"

text \<open>The body of the \<^verbatim>\<open>try\<close> in the filter callback of \<^verbatim>\<open>getElementMappingsForSite\<close>:
  what it returns, or what it throws.\<close>

definition match_attempt ::
  "(string \<Rightarrow> tester option) \<Rightarrow> string \<Rightarrow> string \<Rightarrow> error + bool" where
  "match_attempt other url pat =
     (if MAX_PATTERN_LENGTH < length pat then Inr (String_includes url (take MAX_PATTERN_LENGTH pat))
      else if dangerousPattern_test pat then Inr (String_includes url pat)
      else
        (case RegExp_test other pat of
           None \<Rightarrow> Inl (SyntaxError ''Invalid regular expression'')
         | Some pattern \<Rightarrow> pattern url))"

text \<open>The callback: the \<^verbatim>\<open>catch\<close> answers with the substring test.\<close>

definition site_matches ::
  "(string \<Rightarrow> tester option) \<Rightarrow> string \<Rightarrow> string \<Rightarrow> error + bool" where
  "site_matches other url pat =
     (case match_attempt other url pat of
        Inl e \<Rightarrow> Inr (String_includes url pat)
      | Inr b \<Rightarrow> Inr b)"

text \<open>\<^verbatim>\<open>Array.prototype.filter\<close> with a callback that may throw: the first throw ends it.\<close>

fun filter_js :: "('a \<Rightarrow> error + bool) \<Rightarrow> 'a list \<Rightarrow> error + 'a list" where
  "filter_js f [] = Inr []"
| "filter_js f (x # xs) =
     (case f x of
        Inl e \<Rightarrow> Inl e
      | Inr keep \<Rightarrow>
          (case filter_js f xs of
             Inl e \<Rightarrow> Inl e
           | Inr ys \<Rightarrow> Inr (if keep then x # ys else ys)))"

text \<open>\<^verbatim>\<open>SELECT * FROM element_mappings ORDER BY site_pattern\<close>, filtered. SQLite reads
  the rows along the index of \<^verbatim>\<open>UNIQUE(site_pattern, element_name)\<close>, so rows of one site
  pattern come in the order of their element names.\<close>

definition getElementMappingsForSite ::
  "(string \<Rightarrow> tester option) \<Rightarrow> string \<Rightarrow> database \<Rightarrow> error + mapping_row list" where
  "getElementMappingsForSite other url db =
     filter_js (\<lambda>mapping. site_matches other url (site_pattern mapping))
       (sort_key (\<lambda>mapping. (site_pattern mapping, element_name mapping)) (element_mappings db))"

text \<open>\<^verbatim>\<open>saveElementMapping\<close>: the upsert on \<^verbatim>\<open>(site_pattern, element_name)\<close>. The counter
  of the table advances on the update as on the insert.\<close>

definition saveElementMapping ::
  "nat \<Rightarrow> string \<Rightarrow> string \<Rightarrow> string \<Rightarrow> string \<Rightarrow> string \<Rightarrow> database \<Rightarrow> database" where
  "saveElementMapping now sitePattern elementName locatorBy locatorValue description db =
     (if list_ex (\<lambda>m. site_pattern m = sitePattern \<and> element_name m = elementName) (element_mappings db)
      then db\<lparr>element_mappings :=
                map (\<lambda>m. if site_pattern m = sitePattern \<and> element_name m = elementName
                          then m\<lparr>locator_by := locatorBy, locator_value := locatorValue,
                                 map_description := description, map_updated_at := now\<rparr>
                          else m)
                    (element_mappings db),
              map_autoinc := Suc (map_autoinc db)\<rparr>
      else db\<lparr>element_mappings :=
                element_mappings db @
                  [\<lparr>map_id = Suc (map_autoinc db), site_pattern = sitePattern,
                    element_name = elementName, locator_by = locatorBy,
                    locator_value = locatorValue, map_description = description,
                    map_created_at = now, map_updated_at = now\<rparr>],
              map_autoinc := Suc (map_autoinc db)\<rparr>)"

text \<open>The algorithm of the site matcher in the words of its specification, over a test
  for the dangerous shape and a compiler of patterns.\<close>

definition graduated_match ::
  "(string \<Rightarrow> bool) \<Rightarrow> (string \<Rightarrow> tester option) \<Rightarrow> string \<Rightarrow> string \<Rightarrow> bool" where
  "graduated_match dangerous compile url pat =
     (if 200 < length pat then String_includes url (take 200 pat)
      else if dangerous pat then String_includes url pat
      else
        (case compile pat of
           Some pattern \<Rightarrow>
             (case pattern url of
                Inr matched \<Rightarrow> matched
              | Inl e \<Rightarrow> String_includes url pat)
         | None \<Rightarrow> String_includes url pat))"

section \<open>The server\<close>

text \<open>
  \<^verbatim>\<open>state\<close> of \<^verbatim>\<open>server.js\<close>. The drivers are the session ids that have one; the
  recording description and trigger are absent until the first recording starts. A tool
  handler runs against the state, the store and the clock; \<open>outside\<close> is whatever the
  browser side keeps.
\<close>

record server_state =
  drivers :: "string list"
  currentSession :: "string option"
  runningSequence :: "string option"
  interruptRequested :: bool
  recordingSequence :: "string option"
  recordedActions :: "action list"
  recordingDescription :: "string option"
  recordingTrigger :: "string option"

definition initial_state :: server_state where
  "initial_state =
     \<lparr>drivers = [], currentSession = None, runningSequence = None, interruptRequested = False,
      recordingSequence = None, recordedActions = [], recordingDescription = None,
      recordingTrigger = None\<rparr>"

record 'e world =
  state :: server_state
  memoryStore :: database
  clock :: nat
  outside :: 'e

text \<open>The truth value of a name that may be null: null and the empty string are false.\<close>

definition truthy :: "string option \<Rightarrow> bool" where
  "truthy name = (case name of None \<Rightarrow> False | Some n \<Rightarrow> n \<noteq> [])"

definition message :: "error \<Rightarrow> string" where
  "message e = (case e of SyntaxError m \<Rightarrow> m | TypeError m \<Rightarrow> m | SqliteError m \<Rightarrow> m | Error m \<Rightarrow> m)"

subsection \<open>Recording\<close>

datatype recording_reply =
    AlreadyRecording string
  | StartedRecording string

text \<open>\<^verbatim>\<open>start_recording\<close>.\<close>

definition start_recording ::
  "string \<Rightarrow> string \<Rightarrow> string \<Rightarrow> server_state \<Rightarrow> recording_reply \<times> server_state" where
  "start_recording sequenceName description triggerPattern s =
     (case recordingSequence s of
        None \<Rightarrow>
          (StartedRecording sequenceName,
           s\<lparr>recordingSequence := Some sequenceName, recordedActions := [],
             recordingDescription := Some description, recordingTrigger := Some triggerPattern\<rparr>)
      | Some current \<Rightarrow>
          if current \<noteq> [] then (AlreadyRecording current, s)
          else
            (StartedRecording sequenceName,
             s\<lparr>recordingSequence := Some sequenceName, recordedActions := [],
               recordingDescription := Some description, recordingTrigger := Some triggerPattern\<rparr>))"

text \<open>\<^verbatim>\<open>recordAction\<close>, which every browser tool calls after its action.\<close>

definition recordAction :: "string \<Rightarrow> json \<Rightarrow> server_state \<Rightarrow> server_state" where
  "recordAction tool params s =
     (if truthy (recordingSequence s)
      then s\<lparr>recordedActions := recordedActions s @ [\<lparr>toolName = tool, parameters = params\<rparr>]\<rparr>
      else s)"

subsection \<open>Interrupting\<close>

datatype interrupt_reply =
    NoSequenceRunning
  | InterruptRequested string

text \<open>\<^verbatim>\<open>interrupt_sequence\<close>.\<close>

definition interrupt_sequence :: "server_state \<Rightarrow> interrupt_reply \<times> server_state" where
  "interrupt_sequence s =
     (case runningSequence s of
        None \<Rightarrow> (NoSequenceRunning, s)
      | Some running \<Rightarrow>
          if running = [] then (NoSequenceRunning, s)
          else (InterruptRequested running, s\<lparr>interruptRequested := True\<rparr>))"

subsection \<open>Dispatching one action\<close>

text \<open>\<^verbatim>\<open>getDriver\<close>: the driver of the current session, or the error it throws.\<close>

definition getDriver :: "server_state \<Rightarrow> error + string" where
  "getDriver s =
     (case currentSession s of
        None \<Rightarrow> Inl (Error ''No active browser session'')
      | Some sessionId \<Rightarrow>
          if sessionId \<in> set (drivers s) then Inr sessionId
          else Inl (Error ''No active browser session''))"

text \<open>\<^verbatim>\<open>params.key\<close>: undefined (\<open>None\<close>) where the object has no such property, a
  \<^verbatim>\<open>TypeError\<close> on null.\<close>

definition reading :: "string \<Rightarrow> string" where
  "reading key = '' (reading '' @ [CHR 0x27] @ key @ [CHR 0x27] @ '')''"

definition property :: "string \<Rightarrow> json \<Rightarrow> error + json option" where
  "property key obj =
     (case obj of
        JNull \<Rightarrow> Inl (TypeError (''Cannot read properties of null'' @ reading key))
      | JObj ms \<Rightarrow> Inr (map_of (rev ms) key)
      | _ \<Rightarrow> Inr None)"

definition lower_char :: "char \<Rightarrow> char" where
  "lower_char c =
     (if 65 \<le> (of_char c :: nat) \<and> (of_char c :: nat) \<le> 90 then char_of (of_char c + 32 :: nat) else c)"

definition toLowerCase :: "string \<Rightarrow> string" where
  "toLowerCase s = map lower_char s"

text \<open>\<^verbatim>\<open>By.id\<close>, \<^verbatim>\<open>By.name\<close> and \<^verbatim>\<open>By.className\<close> of Selenium escape their argument for a
  CSS selector, which throws on anything but a string; \<^verbatim>\<open>By.css\<close> and \<^verbatim>\<open>By.xpath\<close> take
  what they are given.\<close>

definition escapeCss :: "string \<Rightarrow> json option \<Rightarrow> error + string \<times> json option" where
  "escapeCss strategy v =
     (case v of
        Some (JStr _) \<Rightarrow> Inr (strategy, v)
      | _ \<Rightarrow> Inl (TypeError ''input must be a string''))"

text \<open>\<^verbatim>\<open>getLocator(by, value)\<close>: the Selenium locator, as the name of the \<^verbatim>\<open>By\<close> function
  and its argument. \<^verbatim>\<open>by.toLowerCase()\<close> throws where \<^verbatim>\<open>by\<close> is undefined, null or not a
  string.\<close>

definition getLocator :: "json option \<Rightarrow> json option \<Rightarrow> error + string \<times> json option" where
  "getLocator strategy v =
     (case strategy of
        None \<Rightarrow> Inl (TypeError (''Cannot read properties of undefined'' @ reading ''toLowerCase''))
      | Some JNull \<Rightarrow> Inl (TypeError (''Cannot read properties of null'' @ reading ''toLowerCase''))
      | Some (JStr s) \<Rightarrow>
          (let l = toLowerCase s in
           if l = ''id'' then escapeCss ''id'' v
           else if l = ''css'' then Inr (''css'', v)
           else if l = ''xpath'' then Inr (''xpath'', v)
           else if l = ''name'' then escapeCss ''name'' v
           else if l = ''tag'' then Inr (''css'', v)
           else if l = ''class'' then escapeCss ''className'' v
           else Inl (Error (''Unsupported locator strategy: '' @ s)))
      | _ \<Rightarrow> Inl (TypeError ''by.toLowerCase is not a function''))"

definition locator_of :: "string \<Rightarrow> string \<Rightarrow> json \<Rightarrow> error + string \<times> json option" where
  "locator_of byKey valueKey params =
     (case property byKey params of
        Inl e \<Rightarrow> Inl e
      | Inr strategy \<Rightarrow>
          (case property valueKey params of
             Inl e \<Rightarrow> Inl e
           | Inr v \<Rightarrow> getLocator strategy v))"

text \<open>
  \<^verbatim>\<open>executeAction(toolName, params)\<close>. Each case of the switch awaits calls on the
  Selenium driver and returns a message. The driver is outside the repository: the
  parameter \<open>driver\<close> gives, for the case of a tool, the message the awaited calls lead
  to or the error they reject with, and the world as it is when the handler resumes
  (other handlers may have run during the wait). What the case does before its first
  call on the driver is computed here: \<open>getDriver\<close>, the locators.
\<close>

type_synonym 'e boundary = "string \<Rightarrow> json \<Rightarrow> 'e world \<Rightarrow> (error + string) \<times> 'e world"

definition located_tools :: "string list" where
  "located_tools =
     [''click_element'', ''send_keys'', ''find_element'', ''get_element_text'', ''hover'',
      ''double_click'', ''right_click'', ''upload_file'']"

definition executeAction :: "'e boundary \<Rightarrow> string \<Rightarrow> json \<Rightarrow> 'e world \<Rightarrow> (error + string) \<times> 'e world" where
  "executeAction driver tool params w =
     (case getDriver (state w) of
        Inl e \<Rightarrow> (Inl e, w)
      | Inr _ \<Rightarrow>
          if tool = ''navigate'' then
            (case property ''url'' params of
               Inl e \<Rightarrow> (Inl e, w)
             | Inr _ \<Rightarrow> driver tool params w)
          else if tool \<in> set located_tools then
            (case locator_of ''by'' ''value'' params of
               Inl e \<Rightarrow> (Inl e, w)
             | Inr _ \<Rightarrow> driver tool params w)
          else if tool = ''press_key'' then driver tool params w
          else if tool = ''drag_and_drop'' then
            (case locator_of ''by'' ''value'' params of
               Inl e \<Rightarrow> (Inl e, w)
             | Inr _ \<Rightarrow>
                 (case locator_of ''targetBy'' ''targetValue'' params of
                    Inl e \<Rightarrow> (Inl e, w)
                  | Inr _ \<Rightarrow> driver tool params w))
          else (Inl (Error (''Unknown action: '' @ tool)), w))"

subsection \<open>Variable substitution\<close>

text \<open>The loop over \<^verbatim>\<open>Object.entries(variables)\<close>:
  \<^verbatim>\<open>params = params.replace(new RegExp(`{{${key}}}`, 'g'), value)\<close>.\<close>

fun substitute_text ::
  "(string \<Rightarrow> replacer option) \<Rightarrow> string \<Rightarrow> (string \<times> string) list \<Rightarrow> error + string" where
  "substitute_text other params [] = Inr params"
| "substitute_text other params ((key, v) # rest) =
     (case RegExp_replace other (''{{'' @ key @ ''}}'') of
        None \<Rightarrow> Inl (SyntaxError ''Invalid regular expression'')
      | Some replace \<Rightarrow> substitute_text other (replace v params) rest)"

text \<open>\<^verbatim>\<open>JSON.stringify\<close>, the loop, \<^verbatim>\<open>JSON.parse\<close>.\<close>

definition substitute ::
  "(string \<Rightarrow> replacer option) \<Rightarrow> json \<Rightarrow> (string \<times> string) list \<Rightarrow> error + json" where
  "substitute other params variables =
     (case substitute_text other (JSON_stringify params) variables of
        Inl e \<Rightarrow> Inl e
      | Inr replaced \<Rightarrow>
          (case JSON_parse replaced of
             None \<Rightarrow> Inl (SyntaxError ''JSON.parse'')
           | Some p \<Rightarrow> Inr p))"

subsection \<open>Running a sequence\<close>

text \<open>A line of \<^verbatim>\<open>results\<close>: the tool with the message of its success or of its failure.\<close>

datatype step_result =
    StepOk string string
  | StepFailed string string

text \<open>What \<^verbatim>\<open>run_sequence\<close> answers: not found; interrupted after \<open>completedSteps\<close> of
  the total, with the results so far; failed at a step, with the results; completed with
  the number of steps; or the error of the outer \<^verbatim>\<open>catch\<close>.\<close>

datatype run_reply =
    SequenceNotFound string
  | SequenceInterrupted string nat nat "step_result list"
  | SequenceFailed string nat "step_result list"
  | SequenceCompleted string nat "step_result list"
  | ErrorRunning string

definition set_state :: "(server_state \<Rightarrow> server_state) \<Rightarrow> 'e world \<Rightarrow> 'e world" where
  "set_state f w = w\<lparr>state := f (state w)\<rparr>"

definition log_execution :: "string \<Rightarrow> string \<Rightarrow> json \<Rightarrow> bool \<Rightarrow> string option \<Rightarrow> 'e world \<Rightarrow> 'e world" where
  "log_execution name tool params success errorMessage w =
     w\<lparr>memoryStore := logExecution (clock w) (Some name) tool params success errorMessage (memoryStore w)\<rparr>"

text \<open>
  The \<^verbatim>\<open>for\<close> loop over \<^verbatim>\<open>sequence.actions\<close>. It carries \<^verbatim>\<open>results\<close> and
  \<^verbatim>\<open>completedSteps\<close>; the result is \<open>Inl\<close> of the reply where the body returns, and
  \<open>Inr\<close> of what it carries where the loop ends.
\<close>

fun run_steps ::
  "(string \<Rightarrow> replacer option) \<Rightarrow> 'e boundary \<Rightarrow> string \<Rightarrow> (string \<times> string) list \<Rightarrow> nat
     \<Rightarrow> stored_action list \<Rightarrow> step_result list \<times> nat \<Rightarrow> 'e world
     \<Rightarrow> (run_reply + step_result list \<times> nat) \<times> 'e world" where
  "run_steps other driver name variables stepCount [] (results, completedSteps) w =
     (Inr (results, completedSteps), w)"
| "run_steps other driver name variables stepCount (action # rest) (results, completedSteps) w =
     (if interruptRequested (state w) then
        (Inl (SequenceInterrupted name completedSteps stepCount results),
         log_execution name ''INTERRUPTED'' (JObj [(''completedSteps'', JNum (int completedSteps))]) False
           (Some ''User interrupted sequence'')
           (set_state (\<lambda>s. s\<lparr>runningSequence := None, interruptRequested := False\<rparr>) w))
      else
        (case substitute other (parameters action) variables of
           Inl e \<Rightarrow>
             (Inl (ErrorRunning (message e)), set_state (\<lambda>s. s\<lparr>runningSequence := None\<rparr>) w)
         | Inr params \<Rightarrow>
             (case executeAction driver (toolName action) params w of
                (Inr result, w') \<Rightarrow>
                  run_steps other driver name variables stepCount rest
                    (results @ [StepOk (toolName action) result], completedSteps + 1)
                    (log_execution name (toolName action) params True None w')
              | (Inl actionError, w') \<Rightarrow>
                  (Inl (SequenceFailed name (completedSteps + 1)
                          (results @ [StepFailed (toolName action) (message actionError)])),
                   set_state (\<lambda>s. s\<lparr>runningSequence := None\<rparr>)
                     (log_execution name (toolName action) params False (Some (message actionError)) w')))))"

text \<open>\<^verbatim>\<open>run_sequence\<close>.\<close>

definition run_sequence ::
  "(string \<Rightarrow> replacer option) \<Rightarrow> 'e boundary \<Rightarrow> string \<Rightarrow> (string \<times> string) list
     \<Rightarrow> 'e world \<Rightarrow> run_reply \<times> 'e world" where
  "run_sequence other driver name variables w =
     (case getSequence name (memoryStore w) of
        Inl e \<Rightarrow> (ErrorRunning (message e), set_state (\<lambda>s. s\<lparr>runningSequence := None\<rparr>) w)
      | Inr None \<Rightarrow> (SequenceNotFound name, w)
      | Inr (Some sequence) \<Rightarrow>
          (case run_steps other driver name variables (length (actions sequence)) (actions sequence)
                  ([], 0)
                  (set_state (\<lambda>s. s\<lparr>runningSequence := Some name, interruptRequested := False\<rparr>) w) of
             (Inl reply, w') \<Rightarrow> (reply, w')
           | (Inr (results, completedSteps), w') \<Rightarrow>
               (SequenceCompleted name completedSteps results,
                set_state (\<lambda>s. s\<lparr>runningSequence := None\<rparr>) w')))"

text \<open>The tool names that \<^verbatim>\<open>executeAction\<close> has a case for.\<close>

definition known_tools :: "string list" where
  "known_tools = ''navigate'' # located_tools @ [''press_key'', ''drag_and_drop'']"

text \<open>The row that \<open>logExecution\<close> appends.\<close>

definition history_entry ::
  "nat \<Rightarrow> nat \<Rightarrow> string \<Rightarrow> string \<Rightarrow> json \<Rightarrow> bool \<Rightarrow> string option \<Rightarrow> history_row" where
  "history_entry auto now name tool params success errorMessage =
     \<lparr>hist_id = Suc auto, hist_sequence_name = Some name, hist_tool_name = tool,
      hist_parameters = JSON_stringify params, hist_success = (if success then 1 else 0),
      hist_error_message = errorMessage, hist_executed_at = now\<rparr>"

text \<open>The placeholder of a name, and the names for which it is literal text as a regular
  expression: no syntax character, and no digit first (after the braces it would read as
  a quantifier).\<close>

definition placeholder :: "string \<Rightarrow> string" where
  "placeholder key = ''{{'' @ key @ ''}}''"

definition plain_name :: "string \<Rightarrow> bool" where
  "plain_name key =
     (list_all (\<lambda>c. \<not> is_syntax_char c) key \<and> (case key of [] \<Rightarrow> True | c # _ \<Rightarrow> \<not> is_digit c))"

section \<open>Example data\<close>

text \<open>The sequence \<^verbatim>\<open>login\<close> of three steps, and a store that holds it next to a
  second sequence.\<close>

definition demo_navigate :: action where
  "demo_navigate = \<lparr>toolName = ''navigate'', parameters = JObj [(''url'', JStr ''https://x.test'')]\<rparr>"

definition demo_type :: action where
  "demo_type = \<lparr>toolName = ''send_keys'',
     parameters = JObj [(''by'', JStr ''name''), (''value'', JStr ''user''), (''text'', JStr ''{{u}}'')]\<rparr>"

definition demo_click :: action where
  "demo_click = \<lparr>toolName = ''click_element'', parameters = JObj [(''by'', JStr ''id''), (''value'', JStr ''go'')]\<rparr>"

definition demo_db :: database where
  "demo_db =
     snd (saveSequence 9 ''search'' ''second'' ''find it'' [demo_navigate]
       (snd (saveSequence 5 ''login'' ''first'' ''log in'' [demo_navigate, demo_type, demo_click] empty_db)))"

text \<open>A server with an open browser session and that store, at time 20.\<close>

definition demo_world :: "unit world" where
  "demo_world =
     \<lparr>state = initial_state\<lparr>drivers := [''chrome_1''], currentSession := Some ''chrome_1''\<rparr>,
      memoryStore = demo_db, clock = 20, outside = ()\<rparr>"

text \<open>The same server while a run of \<^verbatim>\<open>search\<close> is in progress.\<close>

definition busy_world :: "unit world" where
  "busy_world = set_state (\<lambda>s. s\<lparr>runningSequence := Some ''search''\<rparr>) demo_world"

text \<open>A state that is recording \<^verbatim>\<open>login\<close> and has captured two actions.\<close>

definition recording_state :: server_state where
  "recording_state =
     recordAction ''send_keys'' (parameters demo_type)
       (recordAction ''navigate'' (parameters demo_navigate)
          (snd (start_recording ''login'' ''first'' ''log in'' initial_state)))"

text \<open>Three drivers: one on which every call succeeds; one on which typing fails; and
  one during whose calls the handler of \<^verbatim>\<open>interrupt_sequence\<close> runs.\<close>

definition steady_driver :: "unit boundary" where
  "steady_driver tool params w = (Inr ''done'', w)"

definition failing_driver :: "unit boundary" where
  "failing_driver tool params w =
     (if tool = ''send_keys'' then (Inl (Error ''no such element''), w) else (Inr ''done'', w))"

definition interrupted_driver :: "unit boundary" where
  "interrupted_driver tool params w =
     (Inr ''done'', set_state (\<lambda>s. snd (interrupt_sequence s)) w)"

text \<open>The parameters of the second step of \<^verbatim>\<open>login\<close> with \<^verbatim>\<open>alice\<close> for \<^verbatim>\<open>u\<close>.\<close>

definition typed_params :: json where
  "typed_params = JObj [(''by'', JStr ''name''), (''value'', JStr ''user''), (''text'', JStr ''alice'')]"

text \<open>A store with three element mappings: a literal pattern, a source that is no regular
  expression, and the nested quantifier.\<close>

definition demo_mappings :: database where
  "demo_mappings =
     saveElementMapping 4 ''(a+)+'' ''letters'' ''css'' ''.a'' ''''
       (saveElementMapping 3 ''(login'' ''form'' ''id'' ''login_form'' ''''
          (saveElementMapping 2 ''github'' ''login_button'' ''css'' ''.btn'' '''' empty_db))"

definition long_pattern :: string where
  "long_pattern = replicate 201 (CHR ''a'')"

text \<open>A driver that counts its calls in the browser side of the world and on which typing
  fails, and the server of above with the count at zero.\<close>

definition counting_driver :: "nat boundary" where
  "counting_driver tool params w =
     (if tool = ''send_keys'' then Inl (Error ''no such element'') else Inr ''done'',
      w\<lparr>outside := Suc (outside w)\<rparr>)"

definition counted_world :: "nat world" where
  "counted_world =
     \<lparr>state = initial_state\<lparr>drivers := [''chrome_1''], currentSession := Some ''chrome_1''\<rparr>,
      memoryStore = demo_db, clock = 20, outside = 0\<rparr>"

section \<open>Serialized parameters parse back\<close>

lemma is_digit_digit_char: "d < 10 \<Longrightarrow> is_digit (digit_char d)"
  by (simp add: is_digit_def digit_char_def)

lemma digit_char_value: "d < 10 \<Longrightarrow> (of_char (digit_char d) :: nat) - 48 = d"
  by (simp add: digit_char_def)

lemma nat_digits_all_digits: "list_all is_digit (nat_digits n)"
proof (induction n rule: nat_digits.induct)
  case (1 n)
  show ?case
  proof (cases "n < 10")
    case True
    then show ?thesis by (simp add: nat_digits.simps [of n] is_digit_digit_char)
  next
    case False
    with 1 show ?thesis by (simp add: nat_digits.simps [of n] is_digit_digit_char)
  qed
qed

lemma nat_digits_not_Nil: "nat_digits n \<noteq> []"
  by (simp add: nat_digits.simps [of n])

lemma digits_value_snoc: "digits_value (ds @ [c]) = 10 * digits_value ds + (of_char c - 48)"
  by (simp add: digits_value_def)

lemma digits_value_nat_digits: "digits_value (nat_digits n) = n"
proof (induction n rule: nat_digits.induct)
  case (1 n)
  show ?case
  proof (cases "n < 10")
    case True
    then show ?thesis by (simp add: nat_digits.simps [of n] digits_value_def digit_char_value)
  next
    case False
    with 1 show ?thesis
      by (simp add: nat_digits.simps [of n] digits_value_snoc digit_char_value)
  qed
qed

lemma hd_nat_digits: "10 \<le> n \<Longrightarrow> hd (nat_digits n) \<noteq> CHR ''0''"
proof (induction n rule: nat_digits.induct)
  case (1 n)
  show ?case
  proof (cases "n div 10 < 10")
    case True
    from 1(2) have pos: "0 < n div 10" by simp
    from 1(2) have "nat_digits n = nat_digits (n div 10) @ [digit_char (n mod 10)]"
      by (simp add: nat_digits.simps [of n])
    moreover from True have "nat_digits (n div 10) = [digit_char (n div 10)]"
      by (simp add: nat_digits.simps [of "n div 10"])
    moreover have "digit_char (n div 10) \<noteq> CHR ''0''"
    proof
      assume "digit_char (n div 10) = CHR ''0''"
      then have "(of_char (digit_char (n div 10)) :: nat) - 48 = 0" by simp
      with digit_char_value [OF True] pos show False by simp
    qed
    ultimately show ?thesis by simp
  next
    case False
    with 1 have "hd (nat_digits (n div 10)) \<noteq> CHR ''0''" by simp
    moreover from 1(2) have "nat_digits n = nat_digits (n div 10) @ [digit_char (n mod 10)]"
      by (simp add: nat_digits.simps [of n])
    ultimately show ?thesis by (simp add: nat_digits_not_Nil)
  qed
qed

lemma length_nat_digits_small: "n < 10 \<Longrightarrow> length (nat_digits n) = 1"
  by (simp add: nat_digits.simps [of n])

lemma delimited_not_digit: "delimited rest \<Longrightarrow> rest = [] \<or> \<not> is_digit (hd rest)"
  by (auto simp: delimited_def is_digit_def split: list.splits)

lemma takeWhile_digits: "list_all is_digit ds \<Longrightarrow> delimited rest \<Longrightarrow> takeWhile is_digit (ds @ rest) = ds"
  by (induction ds) (auto simp: delimited_def is_digit_def split: list.splits)

lemma dropWhile_digits: "list_all is_digit ds \<Longrightarrow> delimited rest \<Longrightarrow> dropWhile is_digit (ds @ rest) = rest"
  by (induction ds) (auto simp: delimited_def is_digit_def split: list.splits)

lemma nat_digits_no_leading_zero: "\<not> (1 < length (nat_digits n) \<and> hd (nat_digits n) = CHR ''0'')"
  using hd_nat_digits [of n] length_nat_digits_small [of n] by (cases "n < 10") auto

lemma hd_nat_digits_not_minus: "hd (nat_digits n @ rest) \<noteq> CHR ''-''"
proof -
  obtain c cs where e: "nat_digits n = c # cs" using nat_digits_not_Nil [of n] by (cases "nat_digits n") auto
  with nat_digits_all_digits [of n] have "is_digit c" by simp
  then show ?thesis using e by (auto simp: is_digit_def)
qed

lemma parse_number_nat:
  assumes "delimited rest"
  shows "parse_number (nat_digits n @ rest) = Some (JNum (int n), rest)"
proof -
  obtain c cs where e: "nat_digits n = c # cs" using nat_digits_not_Nil [of n] by (cases "nat_digits n") auto
  have nm: "c \<noteq> CHR ''-''" using hd_nat_digits_not_minus [of n "[]"] e by simp
  have tw: "takeWhile is_digit (nat_digits n @ rest) = nat_digits n"
    by (rule takeWhile_digits [OF nat_digits_all_digits assms])
  have dw: "dropWhile is_digit (nat_digits n @ rest) = rest"
    by (rule dropWhile_digits [OF nat_digits_all_digits assms])
  have fol: "\<not> (case rest of [] \<Rightarrow> False | c # _ \<Rightarrow> c = CHR ''.'' \<or> c = CHR ''e'' \<or> c = CHR ''E'')"
    using assms by (auto simp: delimited_def split: list.splits)
  have neg: "(case nat_digits n @ rest of [] \<Rightarrow> False | c # _ \<Rightarrow> c = CHR ''-'') = False"
    using e nm by simp
  show ?thesis
    unfolding parse_number_def neg Let_def
    using tw dw fol nat_digits_no_leading_zero [of n] nat_digits_not_Nil [of n]
    by (simp add: digits_value_nat_digits)
qed

lemma parse_number_int:
  assumes "delimited rest"
  shows "parse_number (int_digits i @ rest) = Some (JNum i, rest)"
proof (cases "i < 0")
  case False
  then show ?thesis using parse_number_nat [OF assms, of "nat i"] by (simp add: int_digits_def)
next
  case True
  have tw: "takeWhile is_digit (nat_digits (nat (- i)) @ rest) = nat_digits (nat (- i))"
    by (rule takeWhile_digits [OF nat_digits_all_digits assms])
  have dw: "dropWhile is_digit (nat_digits (nat (- i)) @ rest) = rest"
    by (rule dropWhile_digits [OF nat_digits_all_digits assms])
  have fol: "\<not> (case rest of [] \<Rightarrow> False | c # _ \<Rightarrow> c = CHR ''.'' \<or> c = CHR ''e'' \<or> c = CHR ''E'')"
    using assms by (auto simp: delimited_def split: list.splits)
  show ?thesis
    unfolding parse_number_def Let_def
    using True tw dw fol nat_digits_no_leading_zero [of "nat (- i)"] nat_digits_not_Nil [of "nat (- i)"]
    by (simp add: int_digits_def digits_value_nat_digits)
qed

lemma hex_value_hex_digit: "d < 16 \<Longrightarrow> hex_value (hex_digit d) = Some d"
  by (auto simp: hex_value_def hex_digit_def Let_def)

lemma control_char_decode:
  assumes "(of_char c :: nat) < 32"
  shows "hex4 (CHR ''0'') (CHR ''0'') (hex_digit (of_char c div 16)) (hex_digit (of_char c mod 16)) = Some c"
proof -
  have a: "(of_char c :: nat) div 16 < 16" using assms by simp
  have b: "(of_char c :: nat) mod 16 < 16" by simp
  have z: "hex_value (CHR ''0'') = Some 0" by (simp add: hex_value_def)
  have "char_of (16 * ((of_char c :: nat) div 16) + of_char c mod 16) = c" by simp
  then show ?thesis
    unfolding hex4_def using hex_value_hex_digit [OF a] hex_value_hex_digit [OF b] z by simp
qed

lemma parse_string_body_quote_char:
  "parse_string_body (quote_char c @ t # ts) = cons_fst c (parse_string_body (t # ts))"
proof -
  consider (dq) "c = DQ" | (bsl) "c = BSL" | (b) "c = CHR 0x08" | (f) "c = CHR 0x0C"
    | (n) "c = CHR 0x0A" | (r) "c = CHR 0x0D" | (t) "c = CHR 0x09"
    | (ctl) "c \<noteq> DQ" "c \<noteq> BSL" "c \<noteq> CHR 0x08" "c \<noteq> CHR 0x0C" "c \<noteq> CHR 0x0A" "c \<noteq> CHR 0x0D"
        "c \<noteq> CHR 0x09" "(of_char c :: nat) < 32"
    | (plain) "c \<noteq> DQ" "c \<noteq> BSL" "\<not> (of_char c :: nat) < 32"
    by fastforce
  then show ?thesis
  proof cases
    case ctl
    then show ?thesis using control_char_decode [OF ctl(8)] by (simp add: quote_char_def)
  next
    case plain
    then have "quote_char c = [c]" by (auto simp: quote_char_def)
    then show ?thesis using plain by simp
  qed (simp_all add: quote_char_def unescape_def)
qed

lemma parse_string_body_quoted:
  "parse_string_body (concat (map quote_char s) @ DQ # rest) = Some (s, rest)"
proof (induction s)
  case Nil
  show ?case by (cases rest) simp_all
next
  case (Cons c s)
  obtain t ts where e: "concat (map quote_char s) @ DQ # rest = t # ts"
    by (cases "concat (map quote_char s) @ DQ # rest") auto
  have "parse_string_body (concat (map quote_char (c # s)) @ DQ # rest)
      = parse_string_body (quote_char c @ t # ts)" using e by simp
  also have "\<dots> = cons_fst c (parse_string_body (t # ts))" by (rule parse_string_body_quote_char)
  also have "\<dots> = Some (c # s, rest)" using Cons e by (simp add: cons_fst_def)
  finally show ?case .
qed

lemma int_digits_head: "\<exists>c cs. int_digits i = c # cs \<and> (c = CHR ''-'' \<or> is_digit c)"
proof -
  let ?n = "if i < 0 then nat (- i) else nat i"
  obtain c cs where e: "nat_digits ?n = c # cs"
    using nat_digits_not_Nil [of ?n] by (cases "nat_digits ?n") auto
  with nat_digits_all_digits [of ?n] have "is_digit c" by simp
  with e show ?thesis by (cases "i < 0") (simp_all add: int_digits_def)
qed

lemma starts_value_stringify: "starts_value (JSON_stringify j @ r)"
proof (cases j)
  case (JNum i)
  obtain c cs where "int_digits i = c # cs" "c = CHR ''-'' \<or> is_digit c"
    using int_digits_head by blast
  then show ?thesis using JNum by (auto simp: starts_value_def is_ws_def is_digit_def)
qed (auto simp: starts_value_def is_ws_def quote_string_def)

lemma skip_ws_starts_value: "starts_value s \<Longrightarrow> skip_ws s = s"
  by (cases s) (auto simp: starts_value_def skip_ws_def)

lemma starts_value_not_close:
  "starts_value s \<Longrightarrow> expect (CHR '']'') s = None \<and> expect (CHR ''}'') s = None \<and> expect (CHR '','') s = None"
  by (cases s) (auto simp: starts_value_def expect_def)

lemma join_comma_Cons: "xs \<noteq> [] \<Longrightarrow> join_comma (x # xs) = x @ CHR '','' # join_comma xs"
  by (cases xs) simp_all

lemma starts_value_join:
  "vs \<noteq> [] \<Longrightarrow> starts_value (join_comma (map JSON_stringify vs) @ r)"
proof (cases vs)
  case Nil
  assume "vs \<noteq> []"
  with Nil show ?thesis by simp
next
  case (Cons v ws)
  show ?thesis
  proof (cases ws)
    case Nil
    with Cons show ?thesis using starts_value_stringify [of v r] by simp
  next
    case (Cons w ws')
    with \<open>vs = v # ws\<close> show ?thesis
      using starts_value_stringify [of v "CHR '','' # join_comma (map JSON_stringify (w # ws')) @ r"]
      by simp
  qed
qed

lemma skip_ws_delim [simp]:
  "skip_ws (CHR '','' # s) = CHR '','' # s"
  "skip_ws (CHR '']'' # s) = CHR '']'' # s"
  "skip_ws (CHR ''}'' # s) = CHR ''}'' # s"
  "skip_ws (CHR '':'' # s) = CHR '':'' # s"
  by (simp_all add: skip_ws_def is_ws_def)

lemma delimited_simps [simp]:
  "delimited []" "delimited (CHR '','' # s)" "delimited (CHR '']'' # s)" "delimited (CHR ''}'' # s)"
  by (simp_all add: delimited_def)

lemma parse_elements_stringify:
  assumes "vs \<noteq> []"
    and "\<And>v n rest. v \<in> set vs \<Longrightarrow> length (JSON_stringify v) \<le> n \<Longrightarrow> delimited rest
           \<Longrightarrow> parse_value n (JSON_stringify v @ rest) = Some (v, rest)"
    and "length (join_comma (map JSON_stringify vs)) < n"
  shows "parse_elements n (join_comma (map JSON_stringify vs) @ CHR '']'' # rest) = Some (vs, rest)"
  using assms
proof (induction vs arbitrary: n rule: list_nonempty_induct)
  case (single v)
  then obtain m where n: "n = Suc m" by (cases n) auto
  with single have len: "length (JSON_stringify v) \<le> m" by simp
  have "parse_value m (JSON_stringify v @ CHR '']'' # rest) = Some (v, CHR '']'' # rest)"
    using single(1) [OF _ len] by simp
  then show ?case using n by (simp add: expect_def)
next
  case (cons v vs)
  then obtain m where n: "n = Suc m" by (cases n) auto
  let ?tail = "join_comma (map JSON_stringify vs) @ CHR '']'' # rest"
  have shape: "join_comma (map JSON_stringify (v # vs)) @ CHR '']'' # rest
           = JSON_stringify v @ CHR '','' # ?tail"
    using cons(1) by (simp add: join_comma_Cons)
  have len: "length (JSON_stringify v) \<le> m" and len2: "length (join_comma (map JSON_stringify vs)) < m"
    using cons(4) n cons(1) by (simp_all add: join_comma_Cons)
  have pv: "parse_value m (JSON_stringify v @ CHR '','' # ?tail) = Some (v, CHR '','' # ?tail)"
    by (rule cons(3) [OF _ len]) simp_all
  have sk: "skip_ws ?tail = ?tail"
    by (rule skip_ws_starts_value [OF starts_value_join [OF cons(1)]])
  have IH: "parse_elements m ?tail = Some (vs, rest)"
  proof (rule cons(2) [OF _ len2])
    fix v' n' rest'
    assume "v' \<in> set vs" "length (JSON_stringify v') \<le> n'" "delimited rest'"
    then show "parse_value n' (JSON_stringify v' @ rest') = Some (v', rest')"
      using cons(3) [of v' n' rest'] by simp
  qed
  show ?case unfolding shape n using pv sk IH by (simp add: expect_def cons_fst_def)
qed

lemma parse_members_stringify:
  assumes "ms \<noteq> []"
    and "\<And>k v n rest. (k, v) \<in> set ms \<Longrightarrow> length (JSON_stringify v) \<le> n \<Longrightarrow> delimited rest
           \<Longrightarrow> parse_value n (JSON_stringify v @ rest) = Some (v, rest)"
    and "length (join_comma (map member_text ms)) < n"
  shows "parse_members n (join_comma (map member_text ms) @ CHR ''}'' # rest) = Some (ms, rest)"
  using assms
proof (induction ms arbitrary: n rule: list_nonempty_induct)
  case (single kv)
  obtain k v where kv: "kv = (k, v)" by (cases kv)
  from single obtain m where n: "n = Suc m" by (cases n) auto
  with single kv have len: "length (JSON_stringify v) \<le> m" by (simp add: member_text_def)
  have pv: "parse_value m (JSON_stringify v @ CHR ''}'' # rest) = Some (v, CHR ''}'' # rest)"
    using single(1) [OF _ len] kv by simp
  have sk: "skip_ws (JSON_stringify v @ CHR ''}'' # rest) = JSON_stringify v @ CHR ''}'' # rest"
    by (rule skip_ws_starts_value [OF starts_value_stringify])
  have ps: "parse_string_body (concat (map quote_char k) @ DQ # CHR '':'' # JSON_stringify v @ CHR ''}'' # rest)
      = Some (k, CHR '':'' # JSON_stringify v @ CHR ''}'' # rest)"
    by (rule parse_string_body_quoted)
  show ?case unfolding n kv using pv sk ps
    by (simp add: member_text_def quote_string_def expect_def)
next
  case (cons kv ms)
  obtain k v where kv: "kv = (k, v)" by (cases kv)
  from cons obtain m where n: "n = Suc m" by (cases n) auto
  let ?tail = "join_comma (map member_text ms) @ CHR ''}'' # rest"
  have shape: "join_comma (map member_text (kv # ms)) @ CHR ''}'' # rest
           = DQ # concat (map quote_char k) @ DQ # CHR '':'' # JSON_stringify v @ CHR '','' # ?tail"
    using cons(1) kv by (simp add: join_comma_Cons member_text_def quote_string_def)
  have len: "length (JSON_stringify v) \<le> m" and len2: "length (join_comma (map member_text ms)) < m"
    using cons(4) n cons(1) kv by (simp_all add: join_comma_Cons member_text_def)
  have mem: "(k, v) \<in> set (kv # ms)" using kv by simp
  have pv: "parse_value m (JSON_stringify v @ CHR '','' # ?tail) = Some (v, CHR '','' # ?tail)"
    by (rule cons(3) [OF mem len]) simp
  have sk: "skip_ws (JSON_stringify v @ CHR '','' # ?tail) = JSON_stringify v @ CHR '','' # ?tail"
    by (rule skip_ws_starts_value [OF starts_value_stringify])
  have ps: "parse_string_body (concat (map quote_char k) @ DQ # CHR '':'' # JSON_stringify v @ CHR '','' # ?tail)
      = Some (k, CHR '':'' # JSON_stringify v @ CHR '','' # ?tail)"
    by (rule parse_string_body_quoted)
  have hd_tail: "\<exists>t. ?tail = DQ # t"
    using cons(1) by (cases ms; cases "tl ms") (auto simp: member_text_def quote_string_def)
  then have sk2: "skip_ws ?tail = ?tail" by (auto simp: skip_ws_def is_ws_def)
  have IH: "parse_members m ?tail = Some (ms, rest)"
  proof (rule cons(2) [OF _ len2])
    fix k' v' n' rest'
    assume "(k', v') \<in> set ms" "length (JSON_stringify v') \<le> n'" "delimited rest'"
    then show "parse_value n' (JSON_stringify v' @ rest') = Some (v', rest')"
      using cons(3) [of k' v' n' rest'] by simp
  qed
  show ?case unfolding shape n using pv sk ps sk2 IH kv
    by (simp add: expect_def cons_fst_def)
qed

lemma stringify_obj_text:
  "JSON_stringify (JObj ms) = CHR ''{'' # join_comma (map member_text ms) @ ''}''"
  by (simp add: member_text_def)

lemma parse_value_stringify:
  "length (JSON_stringify j) \<le> n \<Longrightarrow> delimited rest
     \<Longrightarrow> parse_value n (JSON_stringify j @ rest) = Some (j, rest)"
proof (induction j arbitrary: n rest)
  case JNull
  then obtain m where "n = Suc m" by (cases n) auto
  then show ?case by (simp add: literal_def)
next
  case (JBool b)
  then obtain m where "n = Suc m" by (cases n; cases b) auto
  then show ?case by (cases b) (simp_all add: literal_def)
next
  case (JNum i)
  obtain c cs where e: "int_digits i = c # cs" and c: "c = CHR ''-'' \<or> is_digit c"
    using int_digits_head by blast
  from JNum e obtain m where n: "n = Suc m" by (cases n) auto
  have d: "c \<noteq> CHR ''n''" "c \<noteq> CHR ''t''" "c \<noteq> CHR ''f''" "c \<noteq> DQ" "c \<noteq> CHR ''[''" "c \<noteq> CHR ''{''"
    using c by (auto simp: is_digit_def)
  have "parse_value (Suc m) ((c # cs) @ rest) = parse_number ((c # cs) @ rest)"
    using d by simp
  then show ?case using parse_number_int [OF JNum(2), of i] e n by simp
next
  case (JStr s)
  then obtain m where n: "n = Suc m" by (cases n) (auto simp: quote_string_def)
  show ?case unfolding n using parse_string_body_quoted [of s rest]
    by (simp add: quote_string_def)
next
  case (JArr vs)
  then obtain m where n: "n = Suc m" by (cases n) auto
  show ?case
  proof (cases "vs = []")
    case True
    then show ?thesis unfolding n by (simp add: expect_def)
  next
    case False
    let ?body = "join_comma (map JSON_stringify vs) @ CHR '']'' # rest"
    have sv: "starts_value ?body" by (rule starts_value_join [OF False])
    have sk: "skip_ws ?body = ?body" by (rule skip_ws_starts_value [OF sv])
    have ne: "expect (CHR '']'') ?body = None" using starts_value_not_close [OF sv] by simp
    have len: "length (join_comma (map JSON_stringify vs)) < m" using JArr(2) n by simp
    have pe: "parse_elements m ?body = Some (vs, rest)"
    proof (rule parse_elements_stringify [OF False _ len])
      fix v n' rest'
      assume "v \<in> set vs" "length (JSON_stringify v) \<le> n'" "delimited rest'"
      then show "parse_value n' (JSON_stringify v @ rest') = Some (v, rest')"
        using JArr(1) by simp
    qed
    show ?thesis unfolding n using sk ne pe by simp
  qed
next
  case (JObj ms)
  then obtain m where n: "n = Suc m" by (cases n) auto
  show ?case
  proof (cases "ms = []")
    case True
    then show ?thesis unfolding n by (simp add: expect_def)
  next
    case False
    let ?body = "join_comma (map member_text ms) @ CHR ''}'' # rest"
    have hd_body: "\<exists>t. ?body = DQ # t"
      using False by (cases ms; cases "tl ms") (auto simp: member_text_def quote_string_def)
    then have sk: "skip_ws ?body = ?body" by (auto simp: skip_ws_def is_ws_def)
    from hd_body have ne: "expect (CHR ''}'') ?body = None" by (auto simp: expect_def)
    have len: "length (join_comma (map member_text ms)) < m"
      using JObj(2) n by (simp add: stringify_obj_text del: JSON_stringify.simps)
    have pm: "parse_members m ?body = Some (ms, rest)"
    proof (rule parse_members_stringify [OF False _ len])
      fix k v n' rest'
      assume "(k, v) \<in> set ms" "length (JSON_stringify v) \<le> n'" "delimited rest'"
      then show "parse_value n' (JSON_stringify v @ rest') = Some (v, rest')"
        using JObj(1) [of "(k, v)" v n' rest'] by simp
    qed
    show ?thesis unfolding n stringify_obj_text using sk ne pm by simp
  qed
qed

theorem JSON_parse_stringify: "JSON_parse (JSON_stringify j) = Some j"
proof -
  have sk: "skip_ws (JSON_stringify j) = JSON_stringify j"
    using skip_ws_starts_value [OF starts_value_stringify [of j "[]"]] by simp
  have "parse_value (Suc (length (JSON_stringify j))) (JSON_stringify j @ []) = Some (j, [])"
    by (rule parse_value_stringify) simp_all
  then show ?thesis unfolding JSON_parse_def using sk by (simp add: skip_ws_def)
qed

section \<open>The memory store: saving, reading and deleting sequences\<close>

lemma select_id_insertSequence:
  "\<exists>row. find (\<lambda>r. seq_name r = n) (action_sequences (insertSequence_run t n d p db)) = Some row
     \<and> seq_name row = n \<and> seq_description row = d \<and> seq_trigger_pattern row = p \<and> seq_updated_at row = t
     \<and> seq_created_at row = (case sequence_named n db of None \<Rightarrow> t | Some old \<Rightarrow> seq_created_at old)
     \<and> seq_id row = (case sequence_named n db of None \<Rightarrow> Suc (seq_autoinc db) | Some old \<Rightarrow> seq_id old)"
proof (cases "list_ex (\<lambda>r. seq_name r = n) (action_sequences db)")
  case True
  let ?upd = "\<lambda>r. if seq_name r = n
               then r\<lparr>seq_description := d, seq_trigger_pattern := p, seq_updated_at := t\<rparr> else r"
  have "\<exists>old. find (\<lambda>r. seq_name r = n) rows = Some old
          \<and> find (\<lambda>r. seq_name r = n) (map ?upd rows)
              = Some (old\<lparr>seq_description := d, seq_trigger_pattern := p, seq_updated_at := t\<rparr>)"
    if "list_ex (\<lambda>r. seq_name r = n) rows" for rows
    using that by (induction rows) auto
  from this [OF True] obtain old where
    o: "find (\<lambda>r. seq_name r = n) (action_sequences db) = Some old"
    and f: "find (\<lambda>r. seq_name r = n) (map ?upd (action_sequences db))
         = Some (old\<lparr>seq_description := d, seq_trigger_pattern := p, seq_updated_at := t\<rparr>)"
    by blast
  from o have "seq_name old = n" by (auto simp: find_Some_iff)
  then show ?thesis using True o f by (simp add: insertSequence_run_def sequence_named_def)
next
  case False
  then have none: "find (\<lambda>r. seq_name r = n) (action_sequences db) = None"
    by (auto simp: find_None_iff list_ex_iff)
  have app: "find P (xs @ [x]) = (case find P xs of None \<Rightarrow> (if P x then Some x else None) | Some y \<Rightarrow> Some y)"
    for P and xs :: "sequence_row list" and x
    by (induction xs) auto
  show ?thesis using False none by (simp add: insertSequence_run_def sequence_named_def app)
qed

lemma filter_new_rows: "filter (\<lambda>a. act_sequence_id a = i) (new_rows t i auto index l) = new_rows t i auto index l"
  by (induction l arbitrary: auto index) auto

lemma step_order_new_rows: "r \<in> set (new_rows t i auto index l) \<Longrightarrow> index < act_step_order r"
  by (induction l arbitrary: auto index) fastforce+

lemma sorted_new_rows: "sorted (map act_step_order (new_rows t i auto index l))"
proof (induction l arbitrary: auto index)
  case Nil
  show ?case by simp
next
  case (Cons a l)
  have "index + 1 \<le> act_step_order r" if "r \<in> set (new_rows t i (Suc auto) (index + 1) l)" for r
    using step_order_new_rows [OF that] by simp
  then show ?case using Cons by auto
qed

lemma load_new_rows: "load_actions (new_rows t i auto index l) = Inr (stored_from index l)"
  by (induction l arbitrary: auto index) (simp_all add: JSON_parse_stringify)

lemma insertActions_refusing:
  assumes "select_id n db = Some i"
  shows "insertActions refused t n index l db
       = (if \<exists>k. index + 2 \<le> k \<and> k < index + 2 + length l \<and> refused k
          then Inl (SqliteError ''the database refused the statement'')
          else Inr (db\<lparr>sequence_actions := sequence_actions db @ new_rows t i (act_autoinc db) index l,
                       act_autoinc := act_autoinc db + length l\<rparr>))"
  using assms
proof (induction l arbitrary: db index)
  case Nil
  then show ?case by simp
next
  case (Cons a l)
  let ?db' = "db\<lparr>sequence_actions := sequence_actions db @
      [\<lparr>act_id = Suc (act_autoinc db), act_sequence_id = i, act_step_order = index + 1,
        act_tool_name = toolName a, act_parameters = JSON_stringify (parameters a), act_created_at = t\<rparr>],
      act_autoinc := Suc (act_autoinc db)\<rparr>"
  have step: "insertAction_run t n (index + 1) (toolName a) (JSON_stringify (parameters a)) db = Inr ?db'"
    using Cons.prems by (simp add: insertAction_run_def)
  have sel: "select_id n ?db' = Some i" using Cons.prems by (simp add: select_id_def)
  have split: "(\<exists>k. index + 2 \<le> k \<and> k < index + 2 + length (a # l) \<and> refused k)
      = (refused (index + 2) \<or> (\<exists>k. index + 1 + 2 \<le> k \<and> k < index + 1 + 2 + length l \<and> refused k))"
  proof
    assume "\<exists>k. index + 2 \<le> k \<and> k < index + 2 + length (a # l) \<and> refused k"
    then obtain k where k: "index + 2 \<le> k" "k < index + 2 + length (a # l)" "refused k" by blast
    show "refused (index + 2) \<or> (\<exists>k. index + 1 + 2 \<le> k \<and> k < index + 1 + 2 + length l \<and> refused k)"
    proof (cases "k = index + 2")
      case True
      with k show ?thesis by simp
    next
      case False
      with k have "index + 1 + 2 \<le> k \<and> k < index + 1 + 2 + length l \<and> refused k" by simp
      then show ?thesis by blast
    qed
  next
    assume "refused (index + 2) \<or> (\<exists>k. index + 1 + 2 \<le> k \<and> k < index + 1 + 2 + length l \<and> refused k)"
    then show "\<exists>k. index + 2 \<le> k \<and> k < index + 2 + length (a # l) \<and> refused k"
    proof
      assume "refused (index + 2)"
      then have "index + 2 \<le> index + 2 \<and> index + 2 < index + 2 + length (a # l) \<and> refused (index + 2)" by simp
      then show ?thesis by blast
    next
      assume "\<exists>k. index + 1 + 2 \<le> k \<and> k < index + 1 + 2 + length l \<and> refused k"
      then obtain k where "index + 1 + 2 \<le> k" "k < index + 1 + 2 + length l" "refused k" by blast
      then have "index + 2 \<le> k \<and> k < index + 2 + length (a # l) \<and> refused k" by simp
      then show ?thesis by blast
    qed
  qed
  define later where "later = (\<exists>k. index + 1 + 2 \<le> k \<and> k < index + 1 + 2 + length l \<and> refused k)"
  define rest where "rest = insertActions refused t n (index + 1) l ?db'"
  have ih: "rest = (if later then Inl (SqliteError ''the database refused the statement'')
          else Inr (?db'\<lparr>sequence_actions := sequence_actions ?db' @ new_rows t i (act_autoinc ?db') (index + 1) l,
                       act_autoinc := act_autoinc ?db' + length l\<rparr>))"
    unfolding rest_def later_def by (rule Cons.IH [OF sel])
  have now: "insertActions refused t n index (a # l) db
      = (if refused (index + 2) then Inl (SqliteError ''the database refused the statement'') else rest)"
    unfolding rest_def using step by (simp add: run_statement_def)
  have goal: "(\<exists>k. index + 2 \<le> k \<and> k < index + 2 + length (a # l) \<and> refused k)
      = (refused (index + 2) \<or> later)"
    unfolding later_def by (rule split)
  show ?case
    unfolding now goal ih by simp
qed

lemma insertActions_appends:
  assumes "select_id n db = Some i"
  shows "insertActions (\<lambda>k. False) t n index l db
       = Inr (db\<lparr>sequence_actions := sequence_actions db @ new_rows t i (act_autoinc db) index l,
                 act_autoinc := act_autoinc db + length l\<rparr>)"
  using insertActions_refusing [OF assms, of "\<lambda>k. False"] by simp

lemma save_statements_refused:
  "save_statements refused t n d p l db
     = (if \<exists>k. k < length l + 2 \<and> refused k
        then Inl (SqliteError ''the database refused the statement'')
        else save_statements (\<lambda>k. False) t n d p l db)"
proof -
  let ?db1 = "insertSequence_run t n d p db"
  let ?db2 = "deleteActions_run n ?db1"
  obtain row where f: "find (\<lambda>r. seq_name r = n) (action_sequences ?db1) = Some row"
    using select_id_insertSequence [of n t d p db] by blast
  have sel1: "select_id n ?db1 = Some (seq_id row)" using f by (simp add: select_id_def)
  have db2: "?db2 = ?db1\<lparr>sequence_actions := filter (\<lambda>a. act_sequence_id a \<noteq> seq_id row) (sequence_actions ?db1)\<rparr>"
    using sel1 by (simp add: deleteActions_run_def)
  have sel2: "select_id n ?db2 = Some (seq_id row)" using sel1 db2 by (simp add: select_id_def)
  define later where "later = (\<exists>k. 0 + 2 \<le> k \<and> k < 0 + 2 + length l \<and> refused k)"
  let ?db3 = "?db2\<lparr>sequence_actions := sequence_actions ?db2 @ new_rows t (seq_id row) (act_autoinc ?db2) 0 l,
                 act_autoinc := act_autoinc ?db2 + length l\<rparr>"
  have ins: "insertActions refused t n 0 l ?db2
      = (if later then Inl (SqliteError ''the database refused the statement'') else Inr ?db3)"
    unfolding later_def by (rule insertActions_refusing [OF sel2])
  have ins0: "insertActions (\<lambda>k. False) t n 0 l ?db2 = Inr ?db3"
    by (rule insertActions_appends [OF sel2])
  have lhs: "save_statements refused t n d p l db
      = (if refused 0 then Inl (SqliteError ''the database refused the statement'')
         else if refused 1 then Inl (SqliteError ''the database refused the statement'')
         else insertActions refused t n 0 l ?db2)"
    by (simp add: save_statements_def run_statement_def)
  have rhs: "save_statements (\<lambda>k. False) t n d p l db = insertActions (\<lambda>k. False) t n 0 l ?db2"
    by (simp add: save_statements_def run_statement_def)
  have split: "(\<exists>k. k < length l + 2 \<and> refused k) = (refused 0 \<or> refused 1 \<or> later)"
  proof
    assume "\<exists>k. k < length l + 2 \<and> refused k"
    then obtain k where k: "k < length l + 2" "refused k" by blast
    consider "k = 0" | "k = 1" | "2 \<le> k" by arith
    then show "refused 0 \<or> refused 1 \<or> later"
    proof cases
      case 1 with k show ?thesis by simp
    next
      case 2 with k show ?thesis by simp
    next
      case 3
      with k have "0 + 2 \<le> k \<and> k < 0 + 2 + length l \<and> refused k" by simp
      then show ?thesis unfolding later_def by blast
    qed
  next
    assume A: "refused 0 \<or> refused 1 \<or> later"
    have a: "\<exists>k. k < length l + 2 \<and> refused k" if "refused 0"
      using that by (intro exI [of _ 0]) simp
    have b: "\<exists>k. k < length l + 2 \<and> refused k" if "refused 1"
      using that by (intro exI [of _ 1]) simp
    have c: "\<exists>k. k < length l + 2 \<and> refused k" if later
      using that unfolding later_def by auto
    from A a b c show "\<exists>k. k < length l + 2 \<and> refused k" by blast
  qed
  show ?thesis
    unfolding lhs rhs ins ins0 split by simp
qed

lemma saveSequence_refused:
  "saveSequence_refusing refused t n d p l db
     = (if \<exists>k. k < length l + 2 \<and> refused k
        then (Inl (SqliteError ''the database refused the statement''), db)
        else saveSequence t n d p l db)"
proof (cases "\<exists>k. k < length l + 2 \<and> refused k")
  case True
  have "save_statements refused t n d p l db = Inl (SqliteError ''the database refused the statement'')"
    using save_statements_refused [of refused t n d p l db] True by simp
  then show ?thesis using True by (simp add: saveSequence_refusing_def)
next
  case False
  have "save_statements refused t n d p l db = save_statements (\<lambda>k. False) t n d p l db"
    by (subst save_statements_refused) (simp only: False if_False)
  then show ?thesis
    unfolding saveSequence_refusing_def saveSequence_def by (simp only: False if_False)
qed

lemma saveSequence_result:
  "\<exists>row db'. saveSequence t n d p l db = (Inr (Some \<lparr>seq_row = row, actions = stored_from 0 l\<rparr>), db')
     \<and> getSequence n db' = Inr (Some \<lparr>seq_row = row, actions = stored_from 0 l\<rparr>)
     \<and> sequence_named n db' = Some row
     \<and> seq_name row = n \<and> seq_description row = d \<and> seq_trigger_pattern row = p \<and> seq_updated_at row = t
     \<and> seq_created_at row = (case sequence_named n db of None \<Rightarrow> t | Some old \<Rightarrow> seq_created_at old)
     \<and> seq_id row = (case sequence_named n db of None \<Rightarrow> Suc (seq_autoinc db) | Some old \<Rightarrow> seq_id old)
     \<and> filter (\<lambda>a. act_sequence_id a = seq_id row) (sequence_actions db')
         = new_rows t (seq_id row) (act_autoinc db) 0 l"
proof -
  let ?db1 = "insertSequence_run t n d p db"
  obtain row where f: "find (\<lambda>r. seq_name r = n) (action_sequences ?db1) = Some row"
    and props: "seq_name row = n" "seq_description row = d" "seq_trigger_pattern row = p" "seq_updated_at row = t"
      "seq_created_at row = (case sequence_named n db of None \<Rightarrow> t | Some old \<Rightarrow> seq_created_at old)"
      "seq_id row = (case sequence_named n db of None \<Rightarrow> Suc (seq_autoinc db) | Some old \<Rightarrow> seq_id old)"
    using select_id_insertSequence [of n t d p db] by blast
  let ?i = "seq_id row"
  let ?db2 = "deleteActions_run n ?db1"
  have sel1: "select_id n ?db1 = Some ?i" using f by (simp add: select_id_def)
  have db2: "?db2 = ?db1\<lparr>sequence_actions := filter (\<lambda>a. act_sequence_id a \<noteq> ?i) (sequence_actions ?db1)\<rparr>"
    using sel1 by (simp add: deleteActions_run_def)
  have sel2: "select_id n ?db2 = Some ?i" using sel1 db2 by (simp add: select_id_def)
  have auto2: "act_autoinc ?db2 = act_autoinc db"
    unfolding db2 by (simp add: insertSequence_run_def)
  let ?db3 = "?db2\<lparr>sequence_actions := sequence_actions ?db2 @ new_rows t ?i (act_autoinc ?db2) 0 l,
                 act_autoinc := act_autoinc ?db2 + length l\<rparr>"
  have ins: "insertActions (\<lambda>k. False) t n 0 l ?db2 = Inr ?db3" by (rule insertActions_appends [OF sel2])
  have f3: "find (\<lambda>r. seq_name r = n) (action_sequences ?db3) = Some row"
    using f db2 by simp
  have rows: "filter (\<lambda>a. act_sequence_id a = ?i) (sequence_actions ?db3) = new_rows t ?i (act_autoinc db) 0 l"
    using auto2 db2 by (simp add: filter_new_rows)
  have get: "getSequence n ?db3 = Inr (Some \<lparr>seq_row = row, actions = stored_from 0 l\<rparr>)"
    unfolding getSequence_def f3 using rows
    by (simp add: sort_key_id_if_sorted [OF sorted_new_rows] load_new_rows)
  have save: "saveSequence t n d p l db = (getSequence n ?db3, ?db3)"
    unfolding saveSequence_def saveSequence_refusing_def save_statements_def using ins
    by (simp add: run_statement_def)
  show ?thesis using save get f3 props rows by (auto simp: sequence_named_def)
qed

lemma truncate_stored_from: "map action.truncate (stored_from index l) = l"
  by (induction l arbitrary: index) (simp_all add: action.truncate_def)

text \<open>
  \<^bold>\<open>C3.\<close> Saving a sequence twice under one name: after the second save, \<open>getSequence\<close>
  returns exactly the actions of the second list in order, numbered from 1 (the rows of
  the first list are gone: the rows with the sequence's id are the new ones only); the
  row keeps its id and its \<open>created_at\<close> from the first save, and its \<open>updated_at\<close> is the
  time of the second save. The save is one indivisible transaction: before it, a reader
  gets the whole first list; whichever of the \<open>length l2 + 2\<close> statements of the second
  save the database refuses (the upsert, the delete, any of the inserts), the call throws
  and leaves the database of the first save, row and actions, as it was; if the database
  refuses none, the call is the save that leaves the whole second list. No reader sees
  a part of either list.
\<close>

theorem saveSequence_twice_replaces_actions:
  "let db1 = snd (saveSequence t1 n d1 p1 l1 db);
       saved = saveSequence t2 n d2 p2 l2 db1;
       db2 = snd saved
   in \<exists>row1 row2.
        sequence_named n db1 = Some row1
      \<and> sequence_named n db2 = Some row2
      \<and> fst saved = getSequence n db2
      \<and> getSequence n db2 = Inr (Some \<lparr>seq_row = row2, actions = stored_from 0 l2\<rparr>)
      \<and> map action.truncate (stored_from 0 l2) = l2
      \<and> filter (\<lambda>a. act_sequence_id a = seq_id row2) (sequence_actions db2)
           = new_rows t2 (seq_id row2) (act_autoinc db1) 0 l2
      \<and> seq_id row2 = seq_id row1
      \<and> seq_created_at row2 = seq_created_at row1
      \<and> seq_updated_at row2 = t2
      \<and> getSequence n db1 = Inr (Some \<lparr>seq_row = row1, actions = stored_from 0 l1\<rparr>)
      \<and> saveSequence_refusing refused t2 n d2 p2 l2 db1
           = (if \<exists>k. k < length l2 + 2 \<and> refused k
              then (Inl (SqliteError ''the database refused the statement''), db1)
              else saved)"
proof -
  obtain row1 db1 where s1: "saveSequence t1 n d1 p1 l1 db = (Inr (Some \<lparr>seq_row = row1, actions = stored_from 0 l1\<rparr>), db1)"
    and g1: "getSequence n db1 = Inr (Some \<lparr>seq_row = row1, actions = stored_from 0 l1\<rparr>)"
    and n1: "sequence_named n db1 = Some row1"
    using saveSequence_result [of t1 n d1 p1 l1 db] by blast
  obtain row2 db2 where s2: "saveSequence t2 n d2 p2 l2 db1 = (Inr (Some \<lparr>seq_row = row2, actions = stored_from 0 l2\<rparr>), db2)"
    and g2: "getSequence n db2 = Inr (Some \<lparr>seq_row = row2, actions = stored_from 0 l2\<rparr>)"
    and n2: "sequence_named n db2 = Some row2"
    and u2: "seq_updated_at row2 = t2"
    and c2: "seq_created_at row2 = (case sequence_named n db1 of None \<Rightarrow> t2 | Some old \<Rightarrow> seq_created_at old)"
    and i2: "seq_id row2 = (case sequence_named n db1 of None \<Rightarrow> Suc (seq_autoinc db1) | Some old \<Rightarrow> seq_id old)"
    and r2: "filter (\<lambda>a. act_sequence_id a = seq_id row2) (sequence_actions db2) = new_rows t2 (seq_id row2) (act_autoinc db1) 0 l2"
    using saveSequence_result [of t2 n d2 p2 l2 db1] by blast
  have atomic: "saveSequence_refusing refused t2 n d2 p2 l2 db1
      = (if \<exists>k. k < length l2 + 2 \<and> refused k
         then (Inl (SqliteError ''the database refused the statement''), db1)
         else saveSequence t2 n d2 p2 l2 db1)"
    by (rule saveSequence_refused)
  have first: "sequence_named n db1 = Some row1
      \<and> sequence_named n db2 = Some row2
      \<and> fst (saveSequence t2 n d2 p2 l2 db1) = getSequence n db2
      \<and> getSequence n db2 = Inr (Some \<lparr>seq_row = row2, actions = stored_from 0 l2\<rparr>)
      \<and> map action.truncate (stored_from 0 l2) = l2
      \<and> filter (\<lambda>a. act_sequence_id a = seq_id row2) (sequence_actions db2)
           = new_rows t2 (seq_id row2) (act_autoinc db1) 0 l2
      \<and> seq_id row2 = seq_id row1
      \<and> seq_created_at row2 = seq_created_at row1
      \<and> seq_updated_at row2 = t2
      \<and> getSequence n db1 = Inr (Some \<lparr>seq_row = row1, actions = stored_from 0 l1\<rparr>)"
    using s2 n1 g1 g2 n2 u2 c2 i2 r2 by (simp add: truncate_stored_from)
  have db1: "snd (saveSequence t1 n d1 p1 l1 db) = db1" using s1 by simp
  have db2: "snd (saveSequence t2 n d2 p2 l2 db1) = db2" using s2 by simp
  show ?thesis
    unfolding Let_def db1 db2 using first atomic by blast
qed

theorem saveSequence_twice_witness:
  "getSequence ''login''
     (snd (saveSequence 7 ''login'' ''again'' '''' [demo_click]
        (snd (saveSequence 5 ''login'' ''first'' ''log in'' [demo_navigate, demo_type] empty_db))))
   = Inr (Some \<lparr>seq_row = \<lparr>seq_id = 1, seq_name = ''login'', seq_description = ''again'',
                            seq_trigger_pattern = '''', seq_created_at = 5, seq_updated_at = 7\<rparr>,
                 actions = [\<lparr>toolName = ''click_element'',
                             parameters = JObj [(''by'', JStr ''id''), (''value'', JStr ''go'')],
                             stepOrder = 1\<rparr>]\<rparr>)
   \<and> saveSequence_refusing (refusing_only 2) 7 ''login'' ''again'' '''' [demo_click]
        (snd (saveSequence 5 ''login'' ''first'' ''log in'' [demo_navigate, demo_type] empty_db))
     = (Inl (SqliteError ''the database refused the statement''),
        snd (saveSequence 5 ''login'' ''first'' ''log in'' [demo_navigate, demo_type] empty_db))
   \<and> getSequence ''login''
        (snd (saveSequence_refusing (refusing_only 2) 7 ''login'' ''again'' '''' [demo_click]
           (snd (saveSequence 5 ''login'' ''first'' ''log in'' [demo_navigate, demo_type] empty_db))))
     = Inr (Some \<lparr>seq_row = \<lparr>seq_id = 1, seq_name = ''login'', seq_description = ''first'',
                              seq_trigger_pattern = ''log in'', seq_created_at = 5, seq_updated_at = 5\<rparr>,
                   actions = [\<lparr>toolName = ''navigate'',
                               parameters = JObj [(''url'', JStr ''https://x.test'')],
                               stepOrder = 1\<rparr>,
                              \<lparr>toolName = ''send_keys'',
                               parameters = JObj [(''by'', JStr ''name''), (''value'', JStr ''user''),
                                                  (''text'', JStr ''{{u}}'')],
                               stepOrder = 2\<rparr>]\<rparr>)"
proof -
  let ?db1 = "snd (saveSequence 5 ''login'' ''first'' ''log in'' [demo_navigate, demo_type] empty_db)"
  have row1: "sequence_named ''login'' ?db1
      = Some \<lparr>seq_id = 1, seq_name = ''login'', seq_description = ''first'',
               seq_trigger_pattern = ''log in'', seq_created_at = 5, seq_updated_at = 5\<rparr>"
    by code_simp
  have row2: "sequence_named ''login'' (snd (saveSequence 7 ''login'' ''again'' '''' [demo_click] ?db1))
      = Some \<lparr>seq_id = 1, seq_name = ''login'', seq_description = ''again'',
               seq_trigger_pattern = '''', seq_created_at = 5, seq_updated_at = 7\<rparr>"
    by code_simp
  have refuses: "\<exists>k. k < length [demo_click] + 2 \<and> refusing_only 2 k"
    by (simp add: refusing_only_def)
  show ?thesis
    using saveSequence_twice_replaces_actions
      [where ?t1.0 = 5 and n = "''login''" and ?d1.0 = "''first''" and ?p1.0 = "''log in''"
         and ?l1.0 = "[demo_navigate, demo_type]" and db = empty_db and ?t2.0 = 7
         and ?d2.0 = "''again''" and ?p2.0 = "''''" and ?l2.0 = "[demo_click]"
         and refused = "refusing_only 2"]
      row1 row2 refuses
    by (simp add: Let_def demo_click_def demo_navigate_def demo_type_def)
qed

text \<open>
  \<^bold>\<open>C4.\<close> \<open>deleteSequence\<close> returns true exactly when a row of that name existed. After
  it, the name has no row and \<open>getSequence\<close> returns null, no action row that belonged to
  a deleted row is left in \<open>sequence_actions\<close>, and a store without orphan action rows
  stays without them.
\<close>

theorem deleteSequence_cascades:
  "let deleted = fst (deleteSequence n db); db' = snd (deleteSequence n db)
   in deleted = list_ex (\<lambda>r. seq_name r = n) (action_sequences db)
      \<and> sequence_named n db' = None
      \<and> getSequence n db' = Inr None
      \<and> list_all (\<lambda>a. \<not> list_ex (\<lambda>r. seq_name r = n \<and> seq_id r = act_sequence_id a) (action_sequences db))
           (sequence_actions db')
      \<and> (no_orphans db \<longrightarrow> no_orphans db')"
proof -
  let ?db' = "snd (deleteSequence n db)"
  have seqs: "action_sequences ?db' = filter (\<lambda>r. seq_name r \<noteq> n) (action_sequences db)"
    by (simp add: deleteSequence_def Let_def)
  have acts: "sequence_actions ?db'
       = filter (\<lambda>a. \<forall>r \<in> set (action_sequences db). seq_name r = n \<longrightarrow> seq_id r \<noteq> act_sequence_id a)
           (sequence_actions db)"
  proof -
    have h: "(act_sequence_id a \<notin> seq_id ` {r \<in> set (action_sequences db). seq_name r = n})
        = (\<forall>r \<in> set (action_sequences db). seq_name r = n \<longrightarrow> seq_id r \<noteq> act_sequence_id a)" for a
      by (simp add: image_iff) metis
    show ?thesis by (simp add: deleteSequence_def Let_def h)
  qed
  have ret: "fst (deleteSequence n db) = list_ex (\<lambda>r. seq_name r = n) (action_sequences db)"
    by (auto simp: deleteSequence_def Let_def list_ex_iff filter_empty_conv)
  have none: "find (\<lambda>r. seq_name r = n) (action_sequences ?db') = None"
    unfolding seqs by (simp add: find_None_iff)
  then have get: "getSequence n ?db' = Inr None" by (simp add: getSequence_def)
  have gone: "list_all (\<lambda>a. \<not> list_ex (\<lambda>r. seq_name r = n \<and> seq_id r = act_sequence_id a) (action_sequences db))
           (sequence_actions ?db')"
    unfolding acts list_all_iff list_ex_iff by auto
  have orph: "no_orphans ?db'" if "no_orphans db"
    unfolding no_orphans_def list_all_iff list_ex_iff
  proof
    fix a assume a: "a \<in> set (sequence_actions ?db')"
    then have a_db: "a \<in> set (sequence_actions db)"
      and keep: "\<forall>r \<in> set (action_sequences db). seq_name r = n \<longrightarrow> seq_id r \<noteq> act_sequence_id a"
      unfolding acts by auto
    from that a_db obtain r where r: "r \<in> set (action_sequences db)" "seq_id r = act_sequence_id a"
      by (auto simp: no_orphans_def list_all_iff list_ex_iff)
    with keep have "seq_name r \<noteq> n" by auto
    with r show "\<exists>r \<in> set (action_sequences ?db'). seq_id r = act_sequence_id a"
      unfolding seqs by auto
  qed
  show ?thesis using ret none get gone orph by (simp add: Let_def sequence_named_def)
qed

theorem deleteSequence_cascades_witness:
  "no_orphans demo_db
   \<and> map act_sequence_id (sequence_actions demo_db) = [1, 1, 1, 2]
   \<and> fst (deleteSequence ''login'' demo_db) = True
   \<and> map act_sequence_id (sequence_actions (snd (deleteSequence ''login'' demo_db))) = [2]
   \<and> no_orphans (snd (deleteSequence ''login'' demo_db))
   \<and> getSequence ''login'' (snd (deleteSequence ''login'' demo_db)) = Inr None
   \<and> fst (deleteSequence ''absent'' demo_db) = False"
proof -
  have a: "no_orphans demo_db" by code_simp
  have b: "map act_sequence_id (sequence_actions demo_db) = [1, 1, 1, 2]" by code_simp
  have c: "fst (deleteSequence ''login'' demo_db) = True" by code_simp
  have d: "map act_sequence_id (sequence_actions (snd (deleteSequence ''login'' demo_db))) = [2]"
    by code_simp
  have e: "fst (deleteSequence ''absent'' demo_db) = False" by code_simp
  show ?thesis
    using deleteSequence_cascades [of "''login''" demo_db] a b c d e by (simp add: Let_def)
qed

text \<open>The claim C5 (an empty name is refused) fails on the code: \<open>saveSequence\<close> has no
  check of the name, and the empty string is not NULL. Saving under the empty name into
  a new store creates the sequence.\<close>

theorem saveSequence_empty_name_counterexample:
  "saveSequence 5 [] ''no name'' ''go'' [demo_navigate] empty_db
   = (Inr (Some \<lparr>seq_row = \<lparr>seq_id = 1, seq_name = [], seq_description = ''no name'',
                            seq_trigger_pattern = ''go'', seq_created_at = 5, seq_updated_at = 5\<rparr>,
                 actions = [\<lparr>toolName = ''navigate'',
                             parameters = JObj [(''url'', JStr ''https://x.test'')],
                             stepOrder = 1\<rparr>]\<rparr>),
      empty_db\<lparr>action_sequences :=
                  [\<lparr>seq_id = 1, seq_name = [], seq_description = ''no name'',
                    seq_trigger_pattern = ''go'', seq_created_at = 5, seq_updated_at = 5\<rparr>],
               sequence_actions :=
                  [\<lparr>act_id = 1, act_sequence_id = 1, act_step_order = 1, act_tool_name = ''navigate'',
                    act_parameters = JSON_stringify (JObj [(''url'', JStr ''https://x.test'')]),
                    act_created_at = 5\<rparr>],
               seq_autoinc := 1, act_autoinc := 1\<rparr>)"
  by code_simp

text \<open>
  \<^bold>\<open>C5\<close> (as the code has it). \<open>saveSequence\<close> called with the empty name does not fail:
  it stores the sequence under the empty name as under any other, with the given
  description, trigger pattern and actions, and returns it.
\<close>

theorem saveSequence_empty_name_is_stored:
  "\<exists>row db'. saveSequence t [] d p l db = (Inr (Some \<lparr>seq_row = row, actions = stored_from 0 l\<rparr>), db')
     \<and> sequence_named [] db' = Some row
     \<and> getSequence [] db' = Inr (Some \<lparr>seq_row = row, actions = stored_from 0 l\<rparr>)
     \<and> seq_name row = [] \<and> seq_description row = d \<and> seq_trigger_pattern row = p
     \<and> seq_updated_at row = t"
  using saveSequence_result [of t "[]" d p l db] by blast

theorem saveSequence_empty_name_witness:
  "\<exists>row db'. saveSequence 5 [] ''no name'' ''go'' [demo_navigate] empty_db
       = (Inr (Some \<lparr>seq_row = row, actions = stored_from 0 [demo_navigate]\<rparr>), db')
     \<and> sequence_named [] db' = Some row
     \<and> getSequence [] db' = Inr (Some \<lparr>seq_row = row, actions = stored_from 0 [demo_navigate]\<rparr>)
     \<and> seq_name row = [] \<and> seq_description row = ''no name'' \<and> seq_trigger_pattern row = ''go''
     \<and> seq_updated_at row = 5"
  by (rule saveSequence_empty_name_is_stored)

section \<open>Recording and running\<close>

lemma state_log_execution [simp]: "state (log_execution name tool params ok err w) = state w"
  by (simp add: log_execution_def)

lemma clock_log_execution [simp]: "clock (log_execution name tool params ok err w) = clock w"
  by (simp add: log_execution_def)

lemma history_log_execution:
  "execution_history (memoryStore (log_execution name tool params ok err w))
     = execution_history (memoryStore w)
         @ [history_entry (hist_autoinc (memoryStore w)) (clock w) name tool params ok err]"
  by (simp add: log_execution_def logExecution_def history_entry_def)

lemma autoinc_log_execution [simp]:
  "hist_autoinc (memoryStore (log_execution name tool params ok err w)) = Suc (hist_autoinc (memoryStore w))"
  by (simp add: log_execution_def logExecution_def)

lemma state_set_state [simp]: "state (set_state f w) = f (state w)"
  by (simp add: set_state_def)

lemma store_set_state [simp]: "memoryStore (set_state f w) = memoryStore w"
  by (simp add: set_state_def)

lemma clock_set_state [simp]: "clock (set_state f w) = clock w"
  by (simp add: set_state_def)

lemma run_steps_append:
  "run_steps other driver name variables stepCount (xs @ ys) acc w
     = (case run_steps other driver name variables stepCount xs acc w of
          (Inl reply, w') \<Rightarrow> (Inl reply, w')
        | (Inr acc', w') \<Rightarrow> run_steps other driver name variables stepCount ys acc' w')"
proof (induction xs arbitrary: acc w)
  case Nil
  show ?case by (cases acc) simp
next
  case (Cons x xs)
  obtain results c where acc: "acc = (results, c)" by (cases acc)
  show ?case unfolding acc using Cons
    by (simp split: sum.splits prod.splits)
qed

lemma run_steps_through_counts:
  "run_steps other driver name variables stepCount xs (results, c) w = (Inr (results', c'), w')
     \<Longrightarrow> c' = c + length xs \<and> length results' = length results + length xs"
proof (induction xs arbitrary: results c w)
  case Nil
  then show ?case by simp
next
  case (Cons x xs)
  from Cons.prems show ?case
    by (auto split: if_splits sum.splits prod.splits dest!: Cons.IH)
qed

text \<open>
  The claim C9 (a further \<^verbatim>\<open>start_recording\<close> is refused while a recording is active)
  fails on the code for the recording started under the empty name. The handler tests
  \<^verbatim>\<open>if (state.recordingSequence)\<close>, and the empty string is falsy: the first call is
  answered ``Started recording'' and sets the four fields, the second is not refused and
  overwrites the name, the description and the trigger and empties the captured actions;
  in between, \<^verbatim>\<open>recordAction\<close> captures nothing.
\<close>

theorem start_recording_after_empty_name:
  "start_recording [] ''first'' ''log in'' initial_state
     = (StartedRecording [],
        initial_state\<lparr>recordingSequence := Some [], recordedActions := [],
                       recordingDescription := Some ''first'', recordingTrigger := Some ''log in''\<rparr>)
   \<and> start_recording ''search'' ''second'' ''find it''
         (snd (start_recording [] ''first'' ''log in'' initial_state))
     = (StartedRecording ''search'',
        initial_state\<lparr>recordingSequence := Some ''search'', recordedActions := [],
                       recordingDescription := Some ''second'', recordingTrigger := Some ''find it''\<rparr>)
   \<and> recordAction ''navigate'' (parameters demo_navigate)
         (snd (start_recording [] ''first'' ''log in'' initial_state))
     = snd (start_recording [] ''first'' ''log in'' initial_state)"
  by (simp add: start_recording_def initial_state_def recordAction_def truthy_def)

text \<open>
  \<^bold>\<open>C9\<close> (as the code has it). While \<^verbatim>\<open>state.recordingSequence\<close> is a non-empty name,
  which is how every handler tests for a recording, \<^verbatim>\<open>start_recording\<close> with any
  arguments answers that the active sequence is already being recorded and leaves the
  whole state as it is: the name, the captured actions, the description and the trigger.
\<close>

theorem start_recording_while_recording:
  assumes "truthy (recordingSequence s)"
  shows "\<exists>current. recordingSequence s = Some current
           \<and> start_recording sequenceName description triggerPattern s = (AlreadyRecording current, s)"
  using assms by (auto simp: truthy_def start_recording_def split: option.splits)

theorem start_recording_while_recording_witness:
  "truthy (recordingSequence recording_state)
   \<and> map toolName (recordedActions recording_state) = [''navigate'', ''send_keys'']
   \<and> start_recording ''search'' ''second'' ''find it'' recording_state
       = (AlreadyRecording ''login'', recording_state)"
proof -
  have t: "truthy (recordingSequence recording_state)" by code_simp
  have c: "recordingSequence recording_state = Some ''login''" by code_simp
  have a: "map toolName (recordedActions recording_state) = [''navigate'', ''send_keys'']" by code_simp
  from start_recording_while_recording [OF t, of "''search''" "''second''" "''find it''"] c
  have "start_recording ''search'' ''second'' ''find it'' recording_state
       = (AlreadyRecording ''login'', recording_state)" by auto
  with t a show ?thesis by simp
qed

lemma executeAction_unknown:
  "getDriver (state w) = Inr sessionId \<Longrightarrow> tool \<notin> set known_tools
     \<Longrightarrow> executeAction driver tool params w = (Inl (Error (''Unknown action: '' @ tool)), w)"
  by (simp add: executeAction_def known_tools_def)

text \<open>
  \<^bold>\<open>C7.\<close> Let the steps before step \<open>k\<close> of a stored sequence run through, and let the
  dispatch of step \<open>k\<close> fail. Then \<^verbatim>\<open>run_sequence\<close> answers that the sequence failed at
  step \<open>k\<close>, with \<open>k - 1\<close> completed steps and their results followed by the failure;
  it has appended one history entry, the failure with the error message, to the history
  as the failed call left it, and cleared the running marker. The steps after \<open>k\<close> play
  no part: the world that the run leaves is the world in which the failed call returned,
  with that one entry and the marker cleared, and nothing else; the stored sequences and
  mappings, the clock and everything behind the driver are as the failed call left them,
  so no call of the driver follows it. A tool name without a case in \<^verbatim>\<open>executeAction\<close>
  is such a failure.
\<close>

theorem failing_step_ends_run:
  assumes "getSequence name (memoryStore w) = Inr (Some sequence)"
    and "actions sequence = before @ action # rest"
    and "run_steps other driver name variables (length (actions sequence)) before ([], 0)
           (set_state (\<lambda>s. s\<lparr>runningSequence := Some name, interruptRequested := False\<rparr>) w)
         = (Inr (results, completedSteps), w1)"
    and "\<not> interruptRequested (state w1)"
    and "substitute other (parameters action) variables = Inr params"
    and "executeAction driver (toolName action) params w1 = (Inl actionError, w2)"
  shows "\<exists>w'. w' = set_state (\<lambda>s. s\<lparr>runningSequence := None\<rparr>)
                    (log_execution name (toolName action) params False (Some (message actionError)) w2)
           \<and> run_sequence other driver name variables w
               = (SequenceFailed name (length before + 1)
                    (results @ [StepFailed (toolName action) (message actionError)]), w')
           \<and> completedSteps = length before
           \<and> length results = length before
           \<and> state w' = (state w2)\<lparr>runningSequence := None\<rparr>
           \<and> execution_history (memoryStore w')
               = execution_history (memoryStore w2)
                   @ [history_entry (hist_autoinc (memoryStore w2)) (clock w2) name (toolName action)
                        params False (Some (message actionError))]
           \<and> action_sequences (memoryStore w') = action_sequences (memoryStore w2)
           \<and> sequence_actions (memoryStore w') = sequence_actions (memoryStore w2)
           \<and> element_mappings (memoryStore w') = element_mappings (memoryStore w2)
           \<and> clock w' = clock w2
           \<and> outside w' = outside w2
           \<and> (\<forall>tool sessionId. getDriver (state w1) = Inr sessionId \<longrightarrow> tool \<notin> set known_tools \<longrightarrow>
                 executeAction driver tool params w1 = (Inl (Error (''Unknown action: '' @ tool)), w1))"
proof -
  let ?w0 = "set_state (\<lambda>s. s\<lparr>runningSequence := Some name, interruptRequested := False\<rparr>) w"
  define n where "n = length (actions sequence)"
  have through: "run_steps other driver name variables n before ([], 0) ?w0 = (Inr (results, completedSteps), w1)"
    using assms(3) by (simp add: n_def)
  from run_steps_through_counts [OF through]
  have cnt: "completedSteps = length before" "length results = length before" by simp_all
  have step: "run_steps other driver name variables n (action # rest) (results, completedSteps) w1
      = (Inl (SequenceFailed name (completedSteps + 1)
                (results @ [StepFailed (toolName action) (message actionError)])),
         set_state (\<lambda>s. s\<lparr>runningSequence := None\<rparr>)
           (log_execution name (toolName action) params False (Some (message actionError)) w2))"
    using assms(4,5,6) by simp
  have "run_steps other driver name variables n (before @ action # rest) ([], 0) ?w0
      = run_steps other driver name variables n (action # rest) (results, completedSteps) w1"
    by (simp only: run_steps_append through) simp
  with step assms(2) have "run_steps other driver name variables n (actions sequence) ([], 0) ?w0
      = (Inl (SequenceFailed name (completedSteps + 1)
                (results @ [StepFailed (toolName action) (message actionError)])),
         set_state (\<lambda>s. s\<lparr>runningSequence := None\<rparr>)
           (log_execution name (toolName action) params False (Some (message actionError)) w2))"
    by simp
  then have "run_sequence other driver name variables w
      = (SequenceFailed name (completedSteps + 1)
           (results @ [StepFailed (toolName action) (message actionError)]),
         set_state (\<lambda>s. s\<lparr>runningSequence := None\<rparr>)
           (log_execution name (toolName action) params False (Some (message actionError)) w2))"
    unfolding run_sequence_def n_def using assms(1) by simp
  moreover have "action_sequences (memoryStore (log_execution name tool p ok err v)) = action_sequences (memoryStore v)"
      "sequence_actions (memoryStore (log_execution name tool p ok err v)) = sequence_actions (memoryStore v)"
      "element_mappings (memoryStore (log_execution name tool p ok err v)) = element_mappings (memoryStore v)"
      "outside (log_execution name tool p ok err v) = outside v"
      "outside (set_state f v) = outside v"
    for tool p ok err f and v :: "'a world"
    by (simp_all add: log_execution_def logExecution_def set_state_def)
  ultimately show ?thesis using cnt by (simp add: history_log_execution executeAction_unknown)
qed

theorem failing_step_ends_run_witness:
  "fst (run_sequence unsupported counting_driver ''login'' [(''u'', ''alice'')] counted_world)
     = SequenceFailed ''login'' 2 [StepOk ''navigate'' ''done'', StepFailed ''send_keys'' ''no such element'']
   \<and> runningSequence (state (snd (run_sequence unsupported counting_driver ''login'' [(''u'', ''alice'')] counted_world))) = None
   \<and> execution_history (memoryStore (snd (run_sequence unsupported counting_driver ''login'' [(''u'', ''alice'')] counted_world)))
       = [history_entry 0 20 ''login'' ''navigate'' (parameters demo_navigate) True None,
          history_entry 1 20 ''login'' ''send_keys'' typed_params False (Some ''no such element'')]
   \<and> outside (snd (run_sequence unsupported counting_driver ''login'' [(''u'', ''alice'')] counted_world)) = 2"
proof -
  let ?seq = "\<lparr>seq_row = \<lparr>seq_id = 1, seq_name = ''login'', seq_description = ''first'',
                          seq_trigger_pattern = ''log in'', seq_created_at = 5, seq_updated_at = 5\<rparr>,
               actions = stored_from 0 [demo_navigate, demo_type, demo_click]\<rparr>"
  let ?w0 = "set_state (\<lambda>s. s\<lparr>runningSequence := Some ''login'', interruptRequested := False\<rparr>) counted_world"
  let ?w1 = "log_execution ''login'' ''navigate'' (parameters demo_navigate) True None (?w0\<lparr>outside := 1\<rparr>)"
  let ?w2 = "?w1\<lparr>outside := 2\<rparr>"
  let ?a = "\<lparr>toolName = ''send_keys'', parameters = parameters demo_type, stepOrder = 2\<rparr>"
  have h1: "getSequence ''login'' (memoryStore counted_world) = Inr (Some ?seq)" by code_simp
  have h2: "actions ?seq = stored_from 0 [demo_navigate] @ ?a # stored_from 2 [demo_click]"
    by (simp add: demo_type_def)
  have h3: "run_steps unsupported counting_driver ''login'' [(''u'', ''alice'')] (length (actions ?seq))
              (stored_from 0 [demo_navigate]) ([], 0) ?w0
            = (Inr ([StepOk ''navigate'' ''done''], 1), ?w1)" by code_simp
  have h4: "\<not> interruptRequested (state ?w1)" by code_simp
  have h5: "substitute unsupported (parameters ?a) [(''u'', ''alice'')] = Inr typed_params" by code_simp
  have h6: "executeAction counting_driver (toolName ?a) typed_params ?w1 = (Inl (Error ''no such element''), ?w2)"
    by code_simp
  have hist: "execution_history (memoryStore ?w2)
      = [history_entry 0 20 ''login'' ''navigate'' (parameters demo_navigate) True None]" by code_simp
  have auto1: "hist_autoinc (memoryStore ?w2) = 1" by code_simp
  have clk: "clock ?w2 = 20" by code_simp
  have out: "outside ?w2 = 2" by simp
  from failing_step_ends_run [OF h1 h2 h3 h4 h5 h6] hist auto1 clk out
  show ?thesis by (auto simp: message_def)
qed

lemma interrupt_at_step_boundary:
  "interruptRequested (state w) \<Longrightarrow>
     run_steps other driver name variables stepCount (action # rest) (results, completedSteps) w
       = (Inl (SequenceInterrupted name completedSteps stepCount results),
          log_execution name ''INTERRUPTED'' (JObj [(''completedSteps'', JNum (int completedSteps))]) False
            (Some ''User interrupted sequence'')
            (set_state (\<lambda>s. s\<lparr>runningSequence := None, interruptRequested := False\<rparr>) w))"
  by simp

lemma dispatched_step_is_recorded:
  "\<not> interruptRequested (state w) \<Longrightarrow> substitute other (parameters action) variables = Inr params
     \<Longrightarrow> executeAction driver (toolName action) params w = (Inr result, w1)
     \<Longrightarrow> run_steps other driver name variables stepCount (action # rest) (results, completedSteps) w
         = run_steps other driver name variables stepCount rest
             (results @ [StepOk (toolName action) result], completedSteps + 1)
             (log_execution name (toolName action) params True None w1)"
  by simp

text \<open>
  \<^bold>\<open>C6.\<close> The loop reads the interrupt flag at the top of each iteration and nowhere
  else. Let the steps before a step of a stored sequence run through, and let the flag be
  set when the loop comes to that step (an \<^verbatim>\<open>interrupt_sequence\<close> ran during a call of the
  step before). Then the step is not dispatched: \<^verbatim>\<open>run_sequence\<close> clears the flag and the
  running marker, appends one \<^verbatim>\<open>INTERRUPTED\<close> entry whose parameters carry the number of
  completed steps, and answers with that number and the results so far, which include the
  step during which the interrupt arrived. For a step that is dispatched and succeeds,
  the success is logged and counted whatever became of the flag during the call.
\<close>

theorem interrupt_is_seen_between_steps:
  assumes "getSequence name (memoryStore w) = Inr (Some sequence)"
    and "actions sequence = before @ action # rest"
    and "run_steps other driver name variables (length (actions sequence)) before ([], 0)
           (set_state (\<lambda>s. s\<lparr>runningSequence := Some name, interruptRequested := False\<rparr>) w)
         = (Inr (results, completedSteps), w1)"
    and "interruptRequested (state w1)"
  shows "\<exists>w'. run_sequence other driver name variables w
               = (SequenceInterrupted name (length before) (length (actions sequence)) results, w')
           \<and> completedSteps = length before
           \<and> length results = length before
           \<and> state w' = (state w1)\<lparr>runningSequence := None, interruptRequested := False\<rparr>
           \<and> execution_history (memoryStore w')
               = execution_history (memoryStore w1)
                   @ [history_entry (hist_autoinc (memoryStore w1)) (clock w1) name ''INTERRUPTED''
                        (JObj [(''completedSteps'', JNum (int (length before)))]) False
                        (Some ''User interrupted sequence'')]
           \<and> (\<forall>step params result w2 w3 acc.
                 \<not> interruptRequested (state w2)
                 \<longrightarrow> substitute other (parameters step) variables = Inr params
                 \<longrightarrow> executeAction driver (toolName step) params w2 = (Inr result, w3)
                 \<longrightarrow> run_steps other driver name variables (length (actions sequence)) [step] acc w2
                      = (Inr (fst acc @ [StepOk (toolName step) result], snd acc + 1),
                         log_execution name (toolName step) params True None w3))"
proof -
  let ?w0 = "set_state (\<lambda>s. s\<lparr>runningSequence := Some name, interruptRequested := False\<rparr>) w"
  define n where "n = length (actions sequence)"
  have through: "run_steps other driver name variables n before ([], 0) ?w0 = (Inr (results, completedSteps), w1)"
    using assms(3) by (simp add: n_def)
  from run_steps_through_counts [OF through]
  have cnt: "completedSteps = length before" "length results = length before" by simp_all
  let ?w' = "log_execution name ''INTERRUPTED'' (JObj [(''completedSteps'', JNum (int completedSteps))]) False
            (Some ''User interrupted sequence'')
            (set_state (\<lambda>s. s\<lparr>runningSequence := None, interruptRequested := False\<rparr>) w1)"
  have "run_steps other driver name variables n (before @ action # rest) ([], 0) ?w0
      = run_steps other driver name variables n (action # rest) (results, completedSteps) w1"
    by (simp only: run_steps_append through) simp
  also have "\<dots> = (Inl (SequenceInterrupted name completedSteps n results), ?w')"
    by (rule interrupt_at_step_boundary [OF assms(4)])
  finally have "run_steps other driver name variables n (actions sequence) ([], 0) ?w0
      = (Inl (SequenceInterrupted name completedSteps n results), ?w')"
    using assms(2) by simp
  then have run: "run_sequence other driver name variables w
      = (SequenceInterrupted name completedSteps n results, ?w')"
    unfolding run_sequence_def n_def using assms(1) by simp
  have flight: "run_steps other driver name variables n [step] acc w2
                      = (Inr (fst acc @ [StepOk (toolName step) result], snd acc + 1),
                         log_execution name (toolName step) params True None w3)"
    if "\<not> interruptRequested (state w2)" "substitute other (parameters step) variables = Inr params"
       "executeAction driver (toolName step) params w2 = (Inr result, w3)"
    for step params result w2 w3 acc
    using that by (cases acc) simp
  show ?thesis
    using run cnt flight by (simp add: history_log_execution n_def)
qed

theorem interrupt_is_seen_between_steps_witness:
  "fst (run_sequence unsupported interrupted_driver ''login'' [(''u'', ''alice'')] demo_world)
     = SequenceInterrupted ''login'' 1 3 [StepOk ''navigate'' ''done'']
   \<and> runningSequence (state (snd (run_sequence unsupported interrupted_driver ''login'' [(''u'', ''alice'')] demo_world))) = None
   \<and> interruptRequested (state (snd (run_sequence unsupported interrupted_driver ''login'' [(''u'', ''alice'')] demo_world))) = False
   \<and> execution_history (memoryStore (snd (run_sequence unsupported interrupted_driver ''login'' [(''u'', ''alice'')] demo_world)))
       = [history_entry 0 20 ''login'' ''navigate'' (parameters demo_navigate) True None,
          history_entry 1 20 ''login'' ''INTERRUPTED'' (JObj [(''completedSteps'', JNum 1)]) False
            (Some ''User interrupted sequence'')]"
proof -
  let ?seq = "\<lparr>seq_row = \<lparr>seq_id = 1, seq_name = ''login'', seq_description = ''first'',
                          seq_trigger_pattern = ''log in'', seq_created_at = 5, seq_updated_at = 5\<rparr>,
               actions = stored_from 0 [demo_navigate, demo_type, demo_click]\<rparr>"
  let ?w0 = "set_state (\<lambda>s. s\<lparr>runningSequence := Some ''login'', interruptRequested := False\<rparr>) demo_world"
  let ?w1 = "log_execution ''login'' ''navigate'' (parameters demo_navigate) True None
               (set_state (\<lambda>s. snd (interrupt_sequence s)) ?w0)"
  let ?b = "\<lparr>toolName = ''send_keys'', parameters = parameters demo_type, stepOrder = 2\<rparr>"
  have h1: "getSequence ''login'' (memoryStore demo_world) = Inr (Some ?seq)" by code_simp
  have h2: "actions ?seq = stored_from 0 [demo_navigate] @ ?b # stored_from 2 [demo_click]"
    by (simp add: demo_type_def)
  have h3: "run_steps unsupported interrupted_driver ''login'' [(''u'', ''alice'')] (length (actions ?seq))
              (stored_from 0 [demo_navigate]) ([], 0) ?w0
            = (Inr ([StepOk ''navigate'' ''done''], 1), ?w1)" by code_simp
  have h4: "interruptRequested (state ?w1)" by code_simp
  have st: "runningSequence (state ?w1) = Some ''login''" by code_simp
  have hist: "execution_history (memoryStore ?w1)
      = [history_entry 0 20 ''login'' ''navigate'' (parameters demo_navigate) True None]" by code_simp
  have auto1: "hist_autoinc (memoryStore ?w1) = 1" by code_simp
  have clk: "clock ?w1 = 20" by code_simp
  from interrupt_is_seen_between_steps [OF h1 h2 h3 h4] hist auto1 clk
  show ?thesis by auto
qed

text \<open>
  The claim C1 (a run is refused while another is in progress) fails on the code:
  \<^verbatim>\<open>run_sequence\<close> never reads \<^verbatim>\<open>state.runningSequence\<close>. With the marker set to
  \<^verbatim>\<open>search\<close>, a run of \<^verbatim>\<open>login\<close> dispatches its three steps, logs them and completes.
\<close>

theorem running_marker_is_not_checked:
  "runningSequence (state busy_world) = Some ''search''
   \<and> execution_history (memoryStore busy_world) = []
   \<and> fst (run_sequence unsupported steady_driver ''login'' [(''u'', ''alice'')] busy_world)
       = SequenceCompleted ''login'' 3
           [StepOk ''navigate'' ''done'', StepOk ''send_keys'' ''done'', StepOk ''click_element'' ''done'']
   \<and> map hist_tool_name
         (execution_history (memoryStore (snd (run_sequence unsupported steady_driver ''login'' [(''u'', ''alice'')] busy_world))))
       = [''navigate'', ''send_keys'', ''click_element'']
   \<and> runningSequence (state (snd (run_sequence unsupported steady_driver ''login'' [(''u'', ''alice'')] busy_world))) = None"
  by code_simp

text \<open>
  \<^bold>\<open>C1\<close> (as the code has it). For a stored sequence, \<^verbatim>\<open>run_sequence\<close> does the same
  whatever the running marker and the interrupt flag were before: it overwrites the
  marker with the new name, clears the flag, and runs the steps.
\<close>

theorem run_sequence_overwrites_running_marker:
  assumes "getSequence name (memoryStore w) = Inr (Some sequence)"
  shows "run_sequence other driver name variables
           (set_state (\<lambda>s. s\<lparr>runningSequence := running, interruptRequested := flag\<rparr>) w)
         = run_sequence other driver name variables w"
proof -
  have "set_state (\<lambda>s. s\<lparr>runningSequence := Some name, interruptRequested := False\<rparr>)
          (set_state (\<lambda>s. s\<lparr>runningSequence := running, interruptRequested := flag\<rparr>) w)
      = set_state (\<lambda>s. s\<lparr>runningSequence := Some name, interruptRequested := False\<rparr>) w"
    by (simp add: set_state_def)
  then show ?thesis using assms by (simp add: run_sequence_def)
qed

theorem run_sequence_overwrites_running_marker_witness:
  "getSequence ''login'' (memoryStore demo_world)
     = Inr (Some \<lparr>seq_row = \<lparr>seq_id = 1, seq_name = ''login'', seq_description = ''first'',
                              seq_trigger_pattern = ''log in'', seq_created_at = 5, seq_updated_at = 5\<rparr>,
                   actions = stored_from 0 [demo_navigate, demo_type, demo_click]\<rparr>)
   \<and> run_sequence unsupported steady_driver ''login'' [(''u'', ''alice'')]
         (set_state (\<lambda>s. s\<lparr>runningSequence := Some ''search'', interruptRequested := True\<rparr>) demo_world)
       = run_sequence unsupported steady_driver ''login'' [(''u'', ''alice'')] demo_world"
proof -
  have h: "getSequence ''login'' (memoryStore demo_world)
     = Inr (Some \<lparr>seq_row = \<lparr>seq_id = 1, seq_name = ''login'', seq_description = ''first'',
                              seq_trigger_pattern = ''log in'', seq_created_at = 5, seq_updated_at = 5\<rparr>,
                   actions = stored_from 0 [demo_navigate, demo_type, demo_click]\<rparr>)" by code_simp
  from run_sequence_overwrites_running_marker [OF h] h show ?thesis by blast
qed

section \<open>Matching site patterns\<close>

lemma site_matches_answers: "\<exists>b. site_matches other url pat = Inr b"
  by (simp add: site_matches_def split: sum.splits)

lemma filter_js_total:
  assumes "\<And>x. \<exists>b. f x = Inr b"
  shows "filter_js f xs = Inr (filter (\<lambda>x. f x = Inr True) xs)"
proof (induction xs)
  case Nil
  show ?case by simp
next
  case (Cons x xs)
  obtain b where "f x = Inr b" using assms by blast
  with Cons show ?case by (cases b) simp_all
qed

lemma site_matches_graduated:
  "site_matches other url pat = Inr (graduated_match dangerousPattern_test (RegExp_test other) url pat)"
  by (simp add: site_matches_def match_attempt_def graduated_match_def MAX_PATTERN_LENGTH_def
      split: option.splits sum.splits)

text \<open>
  \<^bold>\<open>C10.\<close> For every URL, every store and every behaviour of the regular expression
  engine (a constructor that throws, a test that throws), \<open>getElementMappingsForSite\<close>
  returns a list and never throws: the list holds the mappings, in the order of their site
  patterns, whose match attempt said yes, and a match attempt that throws is answered
  with the substring test.
\<close>

theorem getElementMappingsForSite_never_throws:
  "getElementMappingsForSite other url db
     = Inr (filter (\<lambda>mapping. site_matches other url (site_pattern mapping) = Inr True)
              (sort_key (\<lambda>mapping. (site_pattern mapping, element_name mapping)) (element_mappings db)))
   \<and> (match_attempt other url pat = Inl e \<longrightarrow> site_matches other url pat = Inr (String_includes url pat))"
proof -
  have "getElementMappingsForSite other url db
     = Inr (filter (\<lambda>mapping. site_matches other url (site_pattern mapping) = Inr True)
              (sort_key (\<lambda>mapping. (site_pattern mapping, element_name mapping)) (element_mappings db)))"
    unfolding getElementMappingsForSite_def
    by (rule filter_js_total) (rule site_matches_answers)
  then show ?thesis by (simp add: site_matches_def)
qed

theorem getElementMappingsForSite_never_throws_witness:
  "match_attempt nested_plus ''https://github.com/(login'' ''(login'' = Inl (SyntaxError ''Invalid regular expression'')
   \<and> site_matches nested_plus ''https://github.com/(login'' ''(login'' = Inr True
   \<and> map element_name (sort_key (\<lambda>mapping. (site_pattern mapping, element_name mapping)) (element_mappings demo_mappings)) = [''letters'', ''form'', ''login_button'']
   \<and> (case getElementMappingsForSite nested_plus ''https://github.com/(login'' demo_mappings of
         Inl e \<Rightarrow> [] | Inr ms \<Rightarrow> map element_name ms) = [''form'', ''login_button'']"
proof -
  have a: "match_attempt nested_plus ''https://github.com/(login'' ''(login'' = Inl (SyntaxError ''Invalid regular expression'')"
    by code_simp
  have b: "map element_name (sort_key (\<lambda>mapping. (site_pattern mapping, element_name mapping)) (element_mappings demo_mappings)) = [''letters'', ''form'', ''login_button'']"
    by code_simp
  have c: "map element_name (filter (\<lambda>mapping. site_matches nested_plus ''https://github.com/(login'' (site_pattern mapping) = Inr True)
              (sort_key (\<lambda>mapping. (site_pattern mapping, element_name mapping)) (element_mappings demo_mappings))) = [''form'', ''login_button'']"
    by code_simp
  have d: "String_includes ''https://github.com/(login'' ''(login''" by code_simp
  from getElementMappingsForSite_never_throws
         [of nested_plus "''https://github.com/(login''" demo_mappings "''(login''" "SyntaxError ''Invalid regular expression''"]
       a b c d
  show ?thesis by simp
qed

text \<open>
  \<^bold>\<open>C2\<close> at the pattern \<^verbatim>\<open>(a+)+\<close>. The pattern is short, and \<^verbatim>\<open>dangerousPattern\<close> does not
  match it (it has no \<^verbatim>\<open>++\<close>, no \<^verbatim>\<open>**\<close>, no braces, and its group does not start with
  \<^verbatim>\<open>(?\<close>), so the callback compiles it and tests the URL with it: the URL \<^verbatim>\<open>aa\<close> matches,
  though it does not contain the text of the pattern.
\<close>

theorem nested_quantifier_is_compiled:
  "length ''(a+)+'' \<le> MAX_PATTERN_LENGTH
   \<and> dangerousPattern_test ''(a+)+'' = False
   \<and> match_attempt nested_plus ''aa'' ''(a+)+'' = Inr True
   \<and> site_matches nested_plus ''aa'' ''(a+)+'' = Inr True
   \<and> String_includes ''aa'' ''(a+)+'' = False"
  by code_simp

text \<open>
  The callback is the graduated algorithm with \<^verbatim>\<open>dangerousPattern\<close> as its test for the
  dangerous shape: a pattern of more than 200 characters is looked for as text, cut to 200;
  a pattern with \<^verbatim>\<open>++\<close>, \<^verbatim>\<open>**\<close>, a quantified \<^verbatim>\<open>{m,n}\<close> or a quantified group that
  starts with \<^verbatim>\<open>(?\<close> is looked for as text; any other pattern is compiled and tested, and
  looked for as text where that throws.
\<close>

theorem site_matches_is_graduated:
  "site_matches other url pat = Inr (graduated_match dangerousPattern_test (RegExp_test other) url pat)
   \<and> dangerousPattern_test pat
       = (\<exists>pre post. pat = pre @ post \<and>
            (prefix ''++'' post \<or> prefix ''**'' post \<or> quantified_braces post \<or> quantified_group post))"
proof -
  have "dangerousPattern_test pat = (\<exists>pre post. pat = pre @ post \<and> dangerous_at post)"
  proof (induction pat)
    case Nil
    show ?case by simp
  next
    case (Cons c cs)
    have "(\<exists>pre post. c # cs = pre @ post \<and> dangerous_at post)
        = (dangerous_at (c # cs) \<or> (\<exists>pre post. cs = pre @ post \<and> dangerous_at post))"
      by (auto simp: Cons_eq_append_conv)
    with Cons show ?case by simp
  qed
  then show ?thesis using site_matches_graduated by (simp add: dangerous_at_def)
qed

theorem site_matches_is_graduated_witness:
  "site_matches unsupported ''https://github.com/login'' (''github'' @ BSL # ''.com'') = Inr True
   \<and> graduated_match dangerousPattern_test (RegExp_test unsupported) ''https://github.com/login'' (''github'' @ BSL # ''.com'')
   \<and> site_matches unsupported (replicate 200 (CHR ''a'')) long_pattern = Inr True
   \<and> site_matches unsupported (replicate 199 (CHR ''a'')) long_pattern = Inr False
   \<and> dangerousPattern_test ''(?:a+)+''
   \<and> site_matches nested_plus ''aaaa'' ''(?:a+)+'' = Inr False
   \<and> site_matches nested_plus ''see (?:a+)+'' ''(?:a+)+'' = Inr True"
proof -
  have a: "graduated_match dangerousPattern_test (RegExp_test unsupported) ''https://github.com/login'' (''github'' @ BSL # ''.com'')"
    by code_simp
  have b: "site_matches unsupported (replicate 200 (CHR ''a'')) long_pattern = Inr True" by code_simp
  have c: "site_matches unsupported (replicate 199 (CHR ''a'')) long_pattern = Inr False" by code_simp
  have d: "dangerousPattern_test ''(?:a+)+''" by code_simp
  have e: "site_matches nested_plus ''aaaa'' ''(?:a+)+'' = Inr False" by code_simp
  have f: "site_matches nested_plus ''see (?:a+)+'' ''(?:a+)+'' = Inr True" by code_simp
  from site_matches_is_graduated [of unsupported "''https://github.com/login''" "''github'' @ BSL # ''.com''"]
       a b c d e f
  show ?thesis by simp
qed

section \<open>Variable substitution\<close>

text \<open>
  \<^bold>\<open>C8\<close> at three inputs. The value is the replacement text of \<^verbatim>\<open>String.replace\<close>, where
  \<^verbatim>\<open>$$\<close> stands for one dollar: the placeholder becomes \<^verbatim>\<open>pa$word\<close>, not the value
  \<^verbatim>\<open>pa$$word\<close>. The name is the source of a regular expression: with the name
  \<^verbatim>\<open>a|b\<close> the pattern \<^verbatim>\<open>{{a|b}}\<close> is the alternative of \<^verbatim>\<open>{{a\<close> and \<^verbatim>\<open>b}}\<close>, and
  parameters without any \<^verbatim>\<open>{{\<close> are changed. A value with a double quote leaves text
  that \<^verbatim>\<open>JSON.parse\<close> rejects.
\<close>

theorem substitution_is_not_literal:
  "substitute unsupported (parameters demo_type) [(''u'', ''pa$$word'')]
     = Inr (JObj [(''by'', JStr ''name''), (''value'', JStr ''user''), (''text'', JStr ''pa$word'')])
   \<and> String_includes (JSON_stringify (JObj [(''x'', JStr ''b}}'')])) ''{{'' = False
   \<and> substitute unsupported (JObj [(''x'', JStr ''b}}'')]) [(''a|b'', ''c'')] = Inr (JObj [(''x'', JStr ''c'')])
   \<and> substitute unsupported (parameters demo_type) [(''u'', [DQ])] = Inl (SyntaxError ''JSON.parse'')"
  by code_simp

lemma parse_alternatives_literal:
  "list_all (\<lambda>c. \<not> is_operator c \<and> c \<noteq> BSL \<and> c \<noteq> CHR ''|'' \<and> c \<noteq> CHR ''{'') s
     \<Longrightarrow> parse_alternatives s cur = Some [cur @ s]"
proof (induction s cur rule: parse_alternatives.induct)
  case (1 cur)
  show ?case by simp
next
  case (2 c cur)
  then show ?case by simp
next
  case (3 c d cs cur)
  then show ?case by simp
qed

lemma parse_alternatives_placeholder:
  assumes "plain_name key"
  shows "parse_alternatives (placeholder key) [] = Some [placeholder key]"
proof -
  have body: "list_all (\<lambda>c. \<not> is_operator c \<and> c \<noteq> BSL \<and> c \<noteq> CHR ''|'' \<and> c \<noteq> CHR ''{'') (key @ ''}}'')"
    using assms by (auto simp: plain_name_def is_syntax_char_def is_operator_def list_all_iff)
  obtain d ds where e: "key @ ''}}'' = d # ds" by (cases "key @ ''}}''") auto
  have nd: "\<not> is_digit d"
    using assms e by (cases key) (auto simp: plain_name_def is_digit_def)
  have nb: "\<not> is_digit (CHR ''{'')" by (simp add: is_digit_def)
  have "parse_alternatives (placeholder key) [] = parse_alternatives (d # ds) ''{{''"
    unfolding placeholder_def using e nd nb by (simp add: is_operator_def)
  also have "\<dots> = Some [''{{'' @ d # ds]"
    using parse_alternatives_literal [OF body, of "''{{''"] e by simp
  finally show ?thesis using e by (simp add: placeholder_def)
qed

lemma first_match_single: "first_match [p] s = (if prefix p s then Some p else None)"
  by (simp add: first_match_def)

lemma replace_walk_no_match:
  "p \<noteq> [] \<Longrightarrow> \<not> String_includes s p \<Longrightarrow> replace_walk [p] rep preceding 0 s = s"
  by (induction s arbitrary: preceding) (simp_all add: first_match_single)

lemma String_includes_prefix: "String_includes s (a @ b) \<Longrightarrow> String_includes s a"
  by (induction s) (auto simp: prefix_def)

lemma expand_without_dollar: "CHR ''$'' \<notin> set rep \<Longrightarrow> expand matched preceding following rep = rep"
  by (induction matched preceding following rep rule: expand.induct) auto

lemma replace_walk_skip:
  "replace_walk alts rep preceding (length xs) (xs @ s) = replace_walk alts rep (preceding @ xs) 0 s"
proof (induction xs arbitrary: preceding)
  case Nil
  show ?case by simp
next
  case (Cons x xs)
  show ?case using Cons [of "preceding @ [x]"] by simp
qed

lemma no_early_prefix:
  assumes "u \<noteq> []" and "\<not> prefix p (u @ butlast p)"
  shows "\<not> prefix p (u @ p @ s)"
proof
  assume a: "prefix p (u @ p @ s)"
  have pne: "p \<noteq> []" using assms(2) by auto
  have "u @ p @ s = (u @ butlast p) @ last p # s"
    using pne by simp
  with a have "prefix p ((u @ butlast p) @ last p # s)" by simp
  then have "prefix p (u @ butlast p) \<or> (\<exists>us. p = (u @ butlast p) @ us \<and> prefix us (last p # s))"
    by (simp only: prefix_append)
  with assms(2) obtain us where us: "p = (u @ butlast p) @ us" by blast
  then have "length p = length u + (length p - 1) + length us"
    by (metis length_append length_butlast)
  moreover have "0 < length u" "0 < length p" using assms(1) pne by simp_all
  ultimately have "length us = 0" by arith
  with us have "p = u @ butlast p" by simp
  then have "prefix p (u @ butlast p)" by simp
  with assms(2) show False by simp
qed

lemma replace_walk_occurrence:
  assumes "p \<noteq> []" and "CHR ''$'' \<notin> set rep"
  shows "\<not> String_includes (a @ butlast p) p
     \<Longrightarrow> replace_walk [p] rep preceding 0 (a @ p @ b)
         = a @ rep @ replace_walk [p] rep (preceding @ a @ p) 0 b"
proof (induction a arbitrary: preceding)
  case Nil
  obtain c p' where p: "p = c # p'" using assms(1) by (cases p) auto
  have "replace_walk [p] rep preceding 0 (p @ b)
      = expand p preceding b rep @ replace_walk [p] rep (preceding @ [c]) (length p') (p' @ b)"
    unfolding p by (simp add: first_match_single)
  also have "\<dots> = rep @ replace_walk [p] rep (preceding @ p) 0 b"
    using replace_walk_skip [of "[p]" rep "preceding @ [c]" p' b] p
    by (simp add: expand_without_dollar [OF assms(2)])
  finally show ?case by simp
next
  case (Cons x a)
  from Cons.prems have np: "\<not> prefix p ((x # a) @ butlast p)"
    and rest: "\<not> String_includes (a @ butlast p) p" by simp_all
  have "\<not> prefix p ((x # a) @ p @ b)" by (rule no_early_prefix [OF _ np]) simp
  then have "replace_walk [p] rep preceding 0 ((x # a) @ p @ b)
      = x # replace_walk [p] rep (preceding @ [x]) 0 (a @ p @ b)"
    by (simp add: first_match_single)
  also have "\<dots> = x # a @ rep @ replace_walk [p] rep (preceding @ [x] @ a @ p) 0 b"
    using Cons.IH [OF rest, of "preceding @ [x]"] by simp
  finally show ?case by simp
qed

lemma substitute_text_without_placeholders:
  assumes "list_all plain_name (map fst variables)" and "\<not> String_includes params ''{{''"
  shows "substitute_text other params variables = Inr params"
  using assms
proof (induction variables)
  case Nil
  show ?case by simp
next
  case (Cons kv variables)
  obtain key v where kv: "kv = (key, v)" by (cases kv)
  from Cons.prems kv have pl: "plain_name key" by simp
  have "\<not> String_includes params (placeholder key)"
    using Cons.prems(2) String_includes_prefix [of params "''{{''" "key @ ''}}''"]
    by (auto simp: placeholder_def)
  then have same: "replace_walk [placeholder key] v [] 0 params = params"
    by (intro replace_walk_no_match) (simp_all add: placeholder_def)
  have "RegExp_replace other (''{{'' @ key @ ''}}'')
      = Some (\<lambda>replacement subject. replace_walk [placeholder key] replacement [] 0 subject)"
    using parse_alternatives_placeholder [OF pl] by (simp add: RegExp_replace_def placeholder_def)
  then show ?case using same Cons kv by simp
qed

text \<open>
  Where the names have no syntax character of regular expressions and no digit first, the
  placeholder is literal text. Then parameters whose serialized text has no \<^verbatim>\<open>{{\<close> come
  back unchanged; a placeholder that does not occur leaves the text as it is; and the
  first occurrence of a placeholder is replaced by a value without \<^verbatim>\<open>$\<close>, the search
  going on behind it.
\<close>

theorem substitution_with_plain_names:
  assumes "list_all plain_name (map fst variables)"
  shows "(\<not> String_includes (JSON_stringify params) ''{{'' \<longrightarrow> substitute other params variables = Inr params)
       \<and> (plain_name key \<longrightarrow> \<not> String_includes t (placeholder key)
             \<longrightarrow> substitute_text other t [(key, v)] = Inr t)
       \<and> (plain_name key \<longrightarrow> CHR ''$'' \<notin> set v \<longrightarrow> \<not> String_includes (a @ butlast (placeholder key)) (placeholder key)
             \<longrightarrow> substitute_text other (a @ placeholder key @ b) [(key, v)]
                  = Inr (a @ v @ replace_walk [placeholder key] v (a @ placeholder key) 0 b))"
proof -
  have one: "substitute_text other t [(key, v)] = Inr (replace_walk [placeholder key] v [] 0 t)"
    if "plain_name key" for t
    using parse_alternatives_placeholder [OF that] by (simp add: RegExp_replace_def placeholder_def)
  have ne: "placeholder key \<noteq> []" by (simp add: placeholder_def)
  show ?thesis
    using substitute_text_without_placeholders [OF assms, of "JSON_stringify params" other]
      one replace_walk_no_match [OF ne] replace_walk_occurrence [OF ne, of v a "[]" b]
    by (simp add: substitute_def JSON_parse_stringify)
qed

theorem substitution_with_plain_names_witness:
  "list_all plain_name (map fst [(''u'', ''alice''), (''query'', ''x'')])
   \<and> substitute unsupported (parameters demo_navigate) [(''u'', ''alice''), (''query'', ''x'')]
       = Inr (parameters demo_navigate)
   \<and> substitute unsupported (parameters demo_type) [(''u'', ''alice''), (''query'', ''x'')] = Inr typed_params"
proof -
  have a: "list_all plain_name (map fst [(''u'', ''alice''), (''query'', ''x'')])" by code_simp
  have b: "\<not> String_includes (JSON_stringify (parameters demo_navigate)) ''{{''" by code_simp
  have c: "substitute unsupported (parameters demo_type) [(''u'', ''alice''), (''query'', ''x'')] = Inr typed_params"
    by code_simp
  from substitution_with_plain_names [OF a, of "parameters demo_navigate" unsupported] a b c
  show ?thesis by simp
qed

end
